theory Spec2Isabelle
  imports Complex_Main "HOL-Library.Word" "HOL-Library.Multiset"
begin

unbundle bit_operations_syntax

section \<open>Array hash table of hat-trie (src/ahtable.c)\<close>

subsection \<open>Bytes, faults and the host platform\<close>

type_synonym byte = "8 word"

text \<open>
  Modelled from the spec: \<open>value_t\<close> is declared in \<open>ahtable.h\<close>, which is not part of the
  sources at hand; the spec describes it as a fixed-width unsigned integer, typically 64-bit.
  Here \<open>value_t\<close> is a 64-bit word and \<open>sizeof(value_t)\<close> is 8.
\<close>

type_synonym value_t = "64 word"

definition sizeof_value_t :: nat where
  "sizeof_value_t = 8"

text \<open>
  What C leaves undefined, and what aborts the process, is a fault of the model: a read or
  write outside an allocated buffer, a dereference of \<open>NULL\<close>, a remainder by zero and a
  failed \<open>assert\<close>.
\<close>

datatype fault = OutOfBounds | NullDeref | DivByZero | AssertFailed

text \<open>
  What the C text takes from its host: the hash function \<open>hash(key, len)\<close> of
  \<open>superfasthash.h\<close> (a \<open>uint32_t\<close>), the byte order in which \<open>*((uint16_t*) s)\<close> and
  \<open>*((value_t*) s)\<close> are laid out in memory, and the contents of memory that \<open>malloc\<close> and
  \<open>realloc\<close> hand out uninitialised.
\<close>

record platform =
  hash :: "byte list \<Rightarrow> 32 word"
  big_endian :: bool
  junk :: byte

subsection \<open>Memory of one bucket\<close>

text \<open>
  A \<open>slot_t\<close> is an \<open>unsigned char*\<close> to a buffer obtained from \<open>malloc\<close>: the buffer is the
  list of its bytes, a position inside it an offset.
\<close>

definition rd :: "byte list \<Rightarrow> nat \<Rightarrow> fault + byte" where
  "rd buf a = (if a < length buf then Inr (buf ! a) else Inl OutOfBounds)"

definition rd_bytes :: "byte list \<Rightarrow> nat \<Rightarrow> nat \<Rightarrow> fault + byte list" where
  "rd_bytes buf a len =
     (if a + len \<le> length buf then Inr (take len (drop a buf)) else Inl OutOfBounds)"

definition wr_bytes :: "byte list \<Rightarrow> nat \<Rightarrow> byte list \<Rightarrow> fault + byte list" where
  "wr_bytes buf a bs =
     (if a + length bs \<le> length buf
      then Inr (take a buf @ bs @ drop (a + length bs) buf)
      else Inl OutOfBounds)"

definition malloc :: "platform \<Rightarrow> nat \<Rightarrow> byte list" where
  "malloc P sz = replicate sz (junk P)"

definition realloc :: "platform \<Rightarrow> byte list \<Rightarrow> nat \<Rightarrow> byte list" where
  "realloc P buf sz = take sz buf @ replicate (sz - length buf) (junk P)"

definition store_u16 :: "bool \<Rightarrow> 16 word \<Rightarrow> byte list" where
  "store_u16 be w =
     (if be then [ucast (drop_bit 8 w), ucast w] else [ucast w, ucast (drop_bit 8 w)])"

definition load_u16 :: "bool \<Rightarrow> byte \<Rightarrow> byte \<Rightarrow> 16 word" where
  "load_u16 be b0 b1 =
     (if be then push_bit 8 (ucast b0) OR ucast b1 else push_bit 8 (ucast b1) OR ucast b0)"

definition store_value :: "bool \<Rightarrow> value_t \<Rightarrow> byte list" where
  "store_value be v =
     (let bs = map (\<lambda>i. ucast (drop_bit (8 * i) v)) [0..<sizeof_value_t]
      in if be then rev bs else bs)"

definition load_value :: "bool \<Rightarrow> byte list \<Rightarrow> value_t" where
  "load_value be bs =
     foldr (\<lambda>b w. ucast b OR push_bit 8 w) (if be then rev bs else bs) 0"

subsection \<open>Slot codec\<close>

definition LONG_KEYLEN_MASK :: "16 word" where
  "LONG_KEYLEN_MASK = 0x7fff"

text \<open>
  \<open>ins_key(s, key, len, &val)\<close>: writes the length prefix, the key and a zero value at
  \<open>s\<close>; gives the buffer as written, the position \<open>*val\<close> of the value and the position
  after the record.
\<close>

definition ins_key ::
    "platform \<Rightarrow> byte list \<Rightarrow> nat \<Rightarrow> byte list \<Rightarrow> fault + (byte list \<times> nat \<times> nat)" where
  "ins_key P buf s key =
     (let len = length key in
      case (if len < 128 then wr_bytes buf s [word_of_nat len]
            else wr_bytes buf s (store_u16 (big_endian P) (word_of_nat len OR 0x8000))) of
        Inl e \<Rightarrow> Inl e
      | Inr buf1 \<Rightarrow>
          let s1 = s + (if len < 128 then 1 else 2) in
          (case wr_bytes buf1 s1 key of
             Inl e \<Rightarrow> Inl e
           | Inr buf2 \<Rightarrow>
               let val = s1 + len in
               (case wr_bytes buf2 val (store_value (big_endian P) 0) of
                  Inl e \<Rightarrow> Inl e
                | Inr buf3 \<Rightarrow> Inr (buf3, val, val + sizeof_value_t))))"

text \<open>
  The decoding of a length prefix, which the source repeats verbatim in \<open>get_key\<close>,
  \<open>ahtable_iter_next\<close>, \<open>ahtable_iter_key\<close> and \<open>ahtable_iter_val\<close>:
  \<^verbatim>\<open>if (0x80 & *s) { k = LONG_KEYLEN_MASK & *((uint16_t*) s); s += 2; }
  else { k = *s; s += 1; }\<close>
  The result is \<open>k\<close> and the advanced \<open>s\<close>.
\<close>

definition keylen :: "platform \<Rightarrow> byte list \<Rightarrow> nat \<Rightarrow> fault + (nat \<times> nat)" where
  "keylen P buf s =
     (case rd buf s of
        Inl e \<Rightarrow> Inl e
      | Inr b0 \<Rightarrow>
          if 0x80 AND b0 \<noteq> 0 then
            (case rd buf (s + 1) of
               Inl e \<Rightarrow> Inl e
             | Inr b1 \<Rightarrow>
                 Inr (unat (LONG_KEYLEN_MASK AND load_u16 (big_endian P) b0 b1), s + 2))
          else Inr (unat b0, s + 1))"


subsection \<open>The table\<close>

text \<open>
  \<open>struct ahtable_t_\<close> (declared in \<open>ahtable.h\<close>; its fields are those the source reads
  and writes). \<open>T_slots\<close> is the array \<open>T->slots\<close> with the buffer each entry points to,
  \<open>None\<close> for \<open>NULL\<close>. The \<open>size_t\<close> fields are natural numbers: they count buckets and
  records held in memory, far below \<open>2 ^ 64\<close>.
\<close>

record ahtable =
  T_flag :: byte
  T_c0 :: byte
  T_c1 :: byte
  T_n :: nat
  T_m :: nat
  T_max_m :: nat
  T_slots :: "byte list option list"

text \<open>
  A pointer into a bucket: the index of the bucket and the offset in its buffer. \<open>None\<close>
  is \<open>NULL\<close>.
\<close>

type_synonym ptr = "nat \<times> nat"

definition ahtable_max_load_factor :: real where
  "ahtable_max_load_factor = 5.0"

definition ahtable_initial_size :: nat where
  "ahtable_initial_size = 8"

text \<open>
  \<open>(size_t) (ahtable_max_load_factor * (double) n)\<close>, with the doubles read as reals (the
  product is exact in a double as long as it stays below \<open>2 ^ 53\<close>).
\<close>

definition max_load :: "nat \<Rightarrow> nat" where
  "max_load n = nat \<lfloor>ahtable_max_load_factor * real n\<rfloor>"

definition ahtable_create_n :: "nat \<Rightarrow> ahtable" where
  "ahtable_create_n n =
     \<lparr>T_flag = 0, T_c0 = 0, T_c1 = 0, T_n = n, T_m = 0, T_max_m = max_load n,
      T_slots = replicate n None\<rparr>"

definition ahtable_create :: ahtable where
  "ahtable_create = ahtable_create_n ahtable_initial_size"

definition ahtable_size :: "ahtable \<Rightarrow> nat" where
  "ahtable_size T = T_m T"

definition ahtable_clear :: "ahtable \<Rightarrow> ahtable" where
  "ahtable_clear T =
     T\<lparr>T_n := ahtable_initial_size, T_slots := replicate ahtable_initial_size None\<rparr>"

text \<open>The buffer of bucket \<open>b\<close>, for a dereference of a pointer into it.\<close>

definition slot_buf :: "ahtable \<Rightarrow> nat \<Rightarrow> fault + byte list" where
  "slot_buf T b =
     (if b < length (T_slots T)
      then (case T_slots T ! b of None \<Rightarrow> Inl NullDeref | Some buf \<Rightarrow> Inr buf)
      else Inl OutOfBounds)"

definition load_bytes :: "ahtable \<Rightarrow> ptr option \<Rightarrow> nat \<Rightarrow> fault + byte list" where
  "load_bytes T p len =
     (case p of
        None \<Rightarrow> Inl NullDeref
      | Some (b, a) \<Rightarrow>
          (case slot_buf T b of Inl e \<Rightarrow> Inl e | Inr buf \<Rightarrow> rd_bytes buf a len))"

text \<open>\<open>*h\<close> and \<open>*h = v\<close> for a value handle \<open>h\<close>, as the callers of the table do.\<close>

definition deref_value :: "platform \<Rightarrow> ahtable \<Rightarrow> ptr option \<Rightarrow> fault + value_t" where
  "deref_value P T h =
     (case load_bytes T h sizeof_value_t of
        Inl e \<Rightarrow> Inl e
      | Inr bs \<Rightarrow> Inr (load_value (big_endian P) bs))"

definition assign_value ::
    "platform \<Rightarrow> ahtable \<Rightarrow> ptr option \<Rightarrow> value_t \<Rightarrow> fault + ahtable" where
  "assign_value P T h v =
     (case h of
        None \<Rightarrow> Inl NullDeref
      | Some (b, a) \<Rightarrow>
          (case slot_buf T b of
             Inl e \<Rightarrow> Inl e
           | Inr buf \<Rightarrow>
               (case wr_bytes buf a (store_value (big_endian P) v) of
                  Inl e \<Rightarrow> Inl e
                | Inr buf' \<Rightarrow> Inr (T\<lparr>T_slots := (T_slots T)[b := Some buf']\<rparr>))))"

subsection \<open>Iterator\<close>

text \<open>
  \<open>struct ahtable_iter_t_\<close>; the parent table \<open>i->T\<close> is passed beside the iterator.
\<close>

record ahtable_iter =
  iter_i :: nat
  iter_s :: "ptr option"

definition ahtable_iter_finished :: "ahtable \<Rightarrow> ahtable_iter \<Rightarrow> bool" where
  "ahtable_iter_finished T it = (iter_i it \<ge> T_n T)"

text \<open>The \<open>for\<close> loop of \<open>ahtable_iter_begin\<close>, from \<open>i->i = j\<close> with \<open>i->s = s\<close>.\<close>

function iter_begin_loop :: "ahtable \<Rightarrow> nat \<Rightarrow> ptr option \<Rightarrow> fault + ahtable_iter" where
  "iter_begin_loop T j s =
     (if j < T_n T then
        (if j < length (T_slots T) then
           (case T_slots T ! j of
              None \<Rightarrow> iter_begin_loop T (j + 1) None
            | Some buf \<Rightarrow>
                (case rd buf 0 of
                   Inl e \<Rightarrow> Inl e
                 | Inr c \<Rightarrow>
                     if c = 0 then iter_begin_loop T (j + 1) (Some (j, 0))
                     else Inr \<lparr>iter_i = j, iter_s = Some (j, 0)\<rparr>))
         else Inl OutOfBounds)
      else Inr \<lparr>iter_i = j, iter_s = s\<rparr>)"
  by pat_completeness auto
termination
  by (relation "measure (\<lambda>(T, j, s). T_n T - j)") auto

declare iter_begin_loop.simps [simp del]

definition ahtable_iter_begin :: "ahtable \<Rightarrow> fault + ahtable_iter" where
  "ahtable_iter_begin T = iter_begin_loop T 0 None"

text \<open>
  The \<open>do ... while\<close> loop of \<open>ahtable_iter_next\<close>, entered after \<open>++i->i\<close> has given \<open>j\<close>.
\<close>

function iter_next_loop :: "ahtable \<Rightarrow> nat \<Rightarrow> fault + nat" where
  "iter_next_loop T j =
     (if j < T_n T then
        (if j < length (T_slots T) then
           (case T_slots T ! j of
              None \<Rightarrow> iter_next_loop T (j + 1)
            | Some buf \<Rightarrow>
                (case rd buf 0 of
                   Inl e \<Rightarrow> Inl e
                 | Inr c \<Rightarrow> if c = 0 then iter_next_loop T (j + 1) else Inr j))
         else Inl OutOfBounds)
      else Inr j)"
  by pat_completeness auto
termination
  by (relation "measure (\<lambda>(T, j). T_n T - j)") auto

declare iter_next_loop.simps [simp del]

definition ahtable_iter_next ::
    "platform \<Rightarrow> ahtable \<Rightarrow> ahtable_iter \<Rightarrow> fault + ahtable_iter" where
  "ahtable_iter_next P T it =
     (if ahtable_iter_finished T it then Inr it
      else
        (case iter_s it of
           None \<Rightarrow> Inl NullDeref
         | Some (b, a) \<Rightarrow>
             (case slot_buf T b of
                Inl e \<Rightarrow> Inl e
              | Inr buf \<Rightarrow>
                  (case keylen P buf a of
                     Inl e \<Rightarrow> Inl e
                   | Inr (k, s1) \<Rightarrow>
                       let s2 = s1 + (k + sizeof_value_t) in
                       (case rd buf s2 of
                          Inl e \<Rightarrow> Inl e
                        | Inr c \<Rightarrow>
                            if c = 0 then
                              (case iter_next_loop T (iter_i it + 1) of
                                 Inl e \<Rightarrow> Inl e
                               | Inr j \<Rightarrow>
                                   Inr \<lparr>iter_i = j,
                                        iter_s = (if j < T_n T then Some (j, 0)
                                                  else Some (b, s2))\<rparr>)
                            else Inr \<lparr>iter_i = iter_i it, iter_s = Some (b, s2)\<rparr>)))))"

text \<open>
  \<open>ahtable_iter_key(i, &len)\<close>: the pointer to the key and \<open>*len\<close>; \<open>None\<close> is the \<open>NULL\<close>
  of a finished iterator.
\<close>

definition ahtable_iter_key ::
    "platform \<Rightarrow> ahtable \<Rightarrow> ahtable_iter \<Rightarrow> fault + (ptr \<times> nat) option" where
  "ahtable_iter_key P T it =
     (if ahtable_iter_finished T it then Inr None
      else
        (case iter_s it of
           None \<Rightarrow> Inl NullDeref
         | Some (b, a) \<Rightarrow>
             (case slot_buf T b of
                Inl e \<Rightarrow> Inl e
              | Inr buf \<Rightarrow>
                  (case keylen P buf a of
                     Inl e \<Rightarrow> Inl e
                   | Inr (k, s1) \<Rightarrow> Inr (Some ((b, s1), k))))))"

definition ahtable_iter_val ::
    "platform \<Rightarrow> ahtable \<Rightarrow> ahtable_iter \<Rightarrow> fault + ptr option" where
  "ahtable_iter_val P T it =
     (if ahtable_iter_finished T it then Inr None
      else
        (case iter_s it of
           None \<Rightarrow> Inl NullDeref
         | Some (b, a) \<Rightarrow>
             (case slot_buf T b of
                Inl e \<Rightarrow> Inl e
              | Inr buf \<Rightarrow>
                  (case keylen P buf a of
                     Inl e \<Rightarrow> Inl e
                   | Inr (k, s1) \<Rightarrow> Inr (Some (b, s1 + k))))))"


text \<open>
  Every traversal in the source has the shape
  \<^verbatim>\<open>while (!ahtable_iter_finished(i)) { body; ahtable_iter_next(i); }\<close>
  The loop runs \<open>body\<close> on the iterator and the variables \<open>st\<close> the body updates.
\<close>

lemma keylen_advances: "keylen P buf s = Inr (k, s1) \<Longrightarrow> s < s1"
  by (auto simp: keylen_def split: sum.splits if_splits)

lemma rd_in_range: "rd buf a = Inr c \<Longrightarrow> a < length buf"
  by (auto simp: rd_def split: if_splits)

lemma iter_next_loop_mono: "iter_next_loop T j = Inr j' \<Longrightarrow> j \<le> j'"
proof (induction T j rule: iter_next_loop.induct)
  case (1 T j)
  from "1.prems" show ?case
    by (subst (asm) iter_next_loop.simps)
       (auto split: if_splits option.splits sum.splits dest: "1.IH"(1) "1.IH"(2))
qed

definition iter_rest :: "ahtable \<Rightarrow> ahtable_iter \<Rightarrow> nat" where
  "iter_rest T it =
     (case iter_s it of
        None \<Rightarrow> 0
      | Some (b, a) \<Rightarrow> (case slot_buf T b of Inl e \<Rightarrow> 0 | Inr buf \<Rightarrow> length buf - a))"

lemma ahtable_iter_next_decreases:
  assumes "ahtable_iter_next P T it = Inr it'" and "\<not> ahtable_iter_finished T it"
  shows "T_n T - iter_i it' < T_n T - iter_i it
         \<or> (iter_i it' = iter_i it \<and> iter_rest T it' < iter_rest T it)"
  using assms
  by (auto simp: ahtable_iter_next_def ahtable_iter_finished_def iter_rest_def Let_def
           split: option.splits sum.splits if_splits prod.splits
           dest!: iter_next_loop_mono keylen_advances rd_in_range)

function ahtable_iter_loop ::
    "platform \<Rightarrow> ahtable \<Rightarrow> (ahtable_iter \<Rightarrow> 'a \<Rightarrow> fault + 'a) \<Rightarrow> ahtable_iter \<Rightarrow> 'a
     \<Rightarrow> fault + 'a" where
  "ahtable_iter_loop P T body it st =
     (if ahtable_iter_finished T it then Inr st
      else
        (case body it st of
           Inl e \<Rightarrow> Inl e
         | Inr st' \<Rightarrow>
             (case ahtable_iter_next P T it of
                Inl e \<Rightarrow> Inl e
              | Inr it' \<Rightarrow> ahtable_iter_loop P T body it' st')))"
  by pat_completeness auto
termination
proof (relation "measures [\<lambda>(P, T, body, it, st). T_n T - iter_i it,
                           \<lambda>(P, T, body, it, st). iter_rest T it]", goal_cases)
  case 1
  show ?case by simp
next
  case (2 P T body it st st' it')
  then show ?case
    using ahtable_iter_next_decreases [of P T it it'] by auto
qed

declare ahtable_iter_loop.simps [simp del]

subsection \<open>Expansion\<close>

text \<open>The body of the first loop of \<open>ahtable_expand\<close>: the size of each new bucket.\<close>

definition expand_size_body ::
    "platform \<Rightarrow> ahtable \<Rightarrow> nat \<Rightarrow> ahtable_iter \<Rightarrow> nat list \<Rightarrow> fault + nat list" where
  "expand_size_body P T new_n it slot_sizes =
     (case ahtable_iter_key P T it of
        Inl e \<Rightarrow> Inl e
      | Inr None \<Rightarrow> Inl NullDeref
      | Inr (Some (key, len)) \<Rightarrow>
          (case load_bytes T (Some key) len of
             Inl e \<Rightarrow> Inl e
           | Inr kbytes \<Rightarrow>
               if new_n = 0 then Inl DivByZero
               else
                 let h = unat (hash P kbytes) mod new_n in
                 if h < length slot_sizes
                 then Inr (slot_sizes[h := slot_sizes ! h
                             + (len + sizeof_value_t + (if len \<ge> 128 then 2 else 1))])
                 else Inl OutOfBounds))"

text \<open>
  The body of the second loop: the record under the iterator is written at
  \<open>slots_next[h]\<close> and its value copied. \<open>slots\<close> holds the new buffers, \<open>slots_next\<close> the
  pointers into them.
\<close>

definition expand_place_body ::
    "platform \<Rightarrow> ahtable \<Rightarrow> nat \<Rightarrow> ahtable_iter
     \<Rightarrow> byte list option list \<times> ptr option list \<times> nat
     \<Rightarrow> fault + (byte list option list \<times> ptr option list \<times> nat)" where
  "expand_place_body P T new_n it st =
     (case st of (slots, slots_next, m) \<Rightarrow>
      (case ahtable_iter_key P T it of
         Inl e \<Rightarrow> Inl e
       | Inr None \<Rightarrow> Inl NullDeref
       | Inr (Some (key, len)) \<Rightarrow>
           (case load_bytes T (Some key) len of
              Inl e \<Rightarrow> Inl e
            | Inr kbytes \<Rightarrow>
                if new_n = 0 then Inl DivByZero
                else
                  let h = unat (hash P kbytes) mod new_n in
                  if h < length slots_next then
                    (case slots_next ! h of
                       None \<Rightarrow> Inl NullDeref
                     | Some (b, a) \<Rightarrow>
                         if b < length slots then
                           (case slots ! b of
                              None \<Rightarrow> Inl NullDeref
                            | Some buf \<Rightarrow>
                                (case ins_key P buf a kbytes of
                                   Inl e \<Rightarrow> Inl e
                                 | Inr (buf1, u, a') \<Rightarrow>
                                     (case ahtable_iter_val P T it of
                                        Inl e \<Rightarrow> Inl e
                                      | Inr v \<Rightarrow>
                                          (case deref_value P T v of
                                             Inl e \<Rightarrow> Inl e
                                           | Inr x \<Rightarrow>
                                               (case wr_bytes buf1 u
                                                       (store_value (big_endian P) x) of
                                                  Inl e \<Rightarrow> Inl e
                                                | Inr buf2 \<Rightarrow>
                                                    Inr (slots[b := Some buf2],
                                                         slots_next[h := Some (b, a')],
                                                         m + 1))))))
                         else Inl OutOfBounds)
                  else Inl OutOfBounds)))"

definition ahtable_expand :: "platform \<Rightarrow> ahtable \<Rightarrow> fault + ahtable" where
  "ahtable_expand P T =
     (let new_n = 2 * T_n T;
          slot_sizes0 = replicate new_n 0
      in
      case ahtable_iter_begin T of
        Inl e \<Rightarrow> Inl e
      | Inr i0 \<Rightarrow>
          (case ahtable_iter_loop P T (expand_size_body P T new_n) i0 slot_sizes0 of
             Inl e \<Rightarrow> Inl e
           | Inr slot_sizes \<Rightarrow>
               let slots0 = map (\<lambda>sz. if sz > 0 then Some ((malloc P (sz + 1))[sz := 0])
                                       else None) slot_sizes;
                   slots_next0 = map (\<lambda>j. case slots0 ! j of None \<Rightarrow> None
                                            | Some buf \<Rightarrow> Some (j, 0)) [0..<new_n]
               in
               (case ahtable_iter_begin T of
                  Inl e \<Rightarrow> Inl e
                | Inr i1 \<Rightarrow>
                    (case ahtable_iter_loop P T (expand_place_body P T new_n) i1
                            (slots0, slots_next0, 0) of
                       Inl e \<Rightarrow> Inl e
                     | Inr (slots, slots_next, m) \<Rightarrow>
                         if m \<noteq> T_m T then Inl AssertFailed
                         else Inr (T\<lparr>T_slots := slots, T_n := new_n,
                                     T_max_m := max_load new_n\<rparr>)))))"

subsection \<open>Lookup and insertion\<close>

text \<open>
  The \<open>while (*s != '\0')\<close> loop of \<open>get_key\<close> over the buffer of one bucket: \<open>Hit v\<close> is
  the \<open>return (value_t*) (s + len)\<close> inside the loop, \<open>Miss s\<close> the exit of the loop with
  \<open>s\<close> at the terminator.
\<close>

datatype scan = Hit nat | Miss nat

function get_key_loop :: "platform \<Rightarrow> byte list \<Rightarrow> nat \<Rightarrow> byte list \<Rightarrow> fault + scan" where
  "get_key_loop P buf s key =
     (case rd buf s of
        Inl e \<Rightarrow> Inl e
      | Inr c \<Rightarrow>
          if c = 0 then Inr (Miss s)
          else
            (case keylen P buf s of
               Inl e \<Rightarrow> Inl e
             | Inr (k, s1) \<Rightarrow>
                 if k \<noteq> length key then get_key_loop P buf (s1 + (k + sizeof_value_t)) key
                 else
                   (case rd_bytes buf s1 (length key) of
                      Inl e \<Rightarrow> Inl e
                    | Inr bs \<Rightarrow>
                        if bs = key then Inr (Hit (s1 + length key))
                        else get_key_loop P buf (s1 + (k + sizeof_value_t)) key)))"
  by pat_completeness auto
termination
  by (relation "measure (\<lambda>(P, buf, s, key). length buf - s)")
     (auto dest!: keylen_advances rd_in_range)

declare get_key_loop.simps [simp del]

text \<open>\<open>get_key\<close> from \<open>uint32_t i = hash(key, len) % T->n\<close> on, after the resize.\<close>

definition get_key_body ::
    "platform \<Rightarrow> ahtable \<Rightarrow> byte list \<Rightarrow> bool \<Rightarrow> fault + (ahtable \<times> ptr option)" where
  "get_key_body P T key insert_missing =
     (let len = length key in
      if T_n T = 0 then Inl DivByZero
      else
        let i = unat (hash P key) mod T_n T in
        if i < length (T_slots T) then
          (case T_slots T ! i of
             None \<Rightarrow>
               if insert_missing then
                 let slot_size = 1 + (if len \<ge> 128 then 1 else 0) + len
                                   + sizeof_value_t + 1
                 in
                 (case ins_key P (malloc P slot_size) 0 key of
                    Inl e \<Rightarrow> Inl e
                  | Inr (buf1, val, s) \<Rightarrow>
                      (case wr_bytes buf1 s [0] of
                         Inl e \<Rightarrow> Inl e
                       | Inr buf2 \<Rightarrow>
                           Inr (T\<lparr>T_slots := (T_slots T)[i := Some buf2],
                                  T_m := T_m T + 1\<rparr>,
                                Some (i, val))))
               else Inr (T, None)
           | Some buf \<Rightarrow>
               (case get_key_loop P buf 0 key of
                  Inl e \<Rightarrow> Inl e
                | Inr (Hit v) \<Rightarrow> Inr (T, Some (i, v))
                | Inr (Miss s) \<Rightarrow>
                    if insert_missing then
                      let old_size = s + 1;
                          new_size = old_size + (1 + (if len \<ge> 128 then 1 else 0))
                                       + len + sizeof_value_t
                      in
                      (case wr_bytes (realloc P buf new_size) (new_size - 1) [0] of
                         Inl e \<Rightarrow> Inl e
                       | Inr buf1 \<Rightarrow>
                           (case ins_key P buf1 (old_size - 1) key of
                              Inl e \<Rightarrow> Inl e
                            | Inr (buf2, val, s') \<Rightarrow>
                                Inr (T\<lparr>T_slots := (T_slots T)[i := Some buf2],
                                       T_m := T_m T + 1\<rparr>,
                                     Some (i, val))))
                    else Inr (T, None)))
        else Inl OutOfBounds)"

text \<open>
  \<open>get_key\<close>: the resize when the table is at capacity and a key may be inserted, then
  the search.
\<close>

definition get_key ::
    "platform \<Rightarrow> ahtable \<Rightarrow> byte list \<Rightarrow> bool \<Rightarrow> fault + (ahtable \<times> ptr option)" where
  "get_key P T key insert_missing =
     (case (if insert_missing \<and> T_m T \<ge> T_max_m T then ahtable_expand P T else Inr T) of
        Inl e \<Rightarrow> Inl e
      | Inr T' \<Rightarrow> get_key_body P T' key insert_missing)"

definition ahtable_get ::
    "platform \<Rightarrow> ahtable \<Rightarrow> byte list \<Rightarrow> fault + (ahtable \<times> ptr option)" where
  "ahtable_get P T key = get_key P T key True"



subsection \<open>The records of a bucket and the invariants of the data model\<close>

text \<open>The bytes \<open>ins_key\<close> writes for a length, and for a whole record.\<close>

definition len_prefix :: "platform \<Rightarrow> nat \<Rightarrow> byte list" where
  "len_prefix P len =
     (if len < 128 then [word_of_nat len]
      else store_u16 (big_endian P) (word_of_nat len OR 0x8000))"

definition enc_record :: "platform \<Rightarrow> byte list \<Rightarrow> value_t \<Rightarrow> byte list" where
  "enc_record P key v = len_prefix P (length key) @ key @ store_value (big_endian P) v"

text \<open>
  The key lengths whose prefix the decoder reads back: from 1 to 32767, and on a
  little-endian host, where byte 0 of a two-byte prefix is the low byte of the length,
  only the lengths from 128 on that have bit 7 set.
\<close>

definition good_len :: "platform \<Rightarrow> nat \<Rightarrow> bool" where
  "good_len P len =
     (1 \<le> len \<and> len \<le> 32767 \<and> (big_endian P \<or> len < 128 \<or> 128 \<le> len mod 256))"

text \<open>
  A record as the decoder finds it in a buffer: where it starts, its key, where its value
  is and the value.
\<close>

datatype entry = Entry (e_at: nat) (e_key: "byte list") (e_val_at: nat) (e_value: value_t)

text \<open>
  The records of a buffer from position \<open>s\<close> on, read the way \<open>get_key\<close> and the iterator
  read them, up to a terminator that is the last byte of the buffer. \<open>None\<close>: the bytes are
  no sequence of records.
\<close>

function slot_entries :: "platform \<Rightarrow> byte list \<Rightarrow> nat \<Rightarrow> entry list option" where
  "slot_entries P buf s =
     (case rd buf s of
        Inl e \<Rightarrow> None
      | Inr c \<Rightarrow>
          if c = 0 then (if s + 1 = length buf then Some [] else None)
          else
            (case keylen P buf s of
               Inl e \<Rightarrow> None
             | Inr (k, s1) \<Rightarrow>
                 (case rd_bytes buf s1 (k + sizeof_value_t) of
                    Inl e \<Rightarrow> None
                  | Inr bs \<Rightarrow>
                      (case slot_entries P buf (s1 + (k + sizeof_value_t)) of
                         None \<Rightarrow> None
                       | Some es \<Rightarrow>
                           Some (Entry s (take k bs) (s1 + k)
                                   (load_value (big_endian P) (drop k bs)) # es)))))"
  by pat_completeness auto
termination
  by (relation "measure (\<lambda>(P, buf, s). length buf - s)")
     (auto dest!: keylen_advances rd_in_range)

declare slot_entries.simps [simp del]

definition slot_list :: "platform \<Rightarrow> byte list option \<Rightarrow> entry list" where
  "slot_list P sl =
     (case sl of
        None \<Rightarrow> []
      | Some buf \<Rightarrow> (case slot_entries P buf 0 of None \<Rightarrow> [] | Some es \<Rightarrow> es))"

text \<open>
  Bucket \<open>j\<close> of a table of \<open>n\<close> buckets is \<open>NULL\<close> or a sequence of records with a
  terminator (invariant 2), of distinct keys (invariant 3) that hash to \<open>j\<close> (invariant 4).
\<close>

definition slot_inv :: "platform \<Rightarrow> nat \<Rightarrow> nat \<Rightarrow> byte list option \<Rightarrow> bool" where
  "slot_inv P n j sl =
     (case sl of
        None \<Rightarrow> True
      | Some buf \<Rightarrow>
          (case slot_entries P buf 0 of
             None \<Rightarrow> False
           | Some es \<Rightarrow>
               (\<forall>e \<in> set es. good_len P (length (e_key e))
                              \<and> unat (hash P (e_key e)) mod n = j)
               \<and> distinct (map e_key es)))"

definition layout_inv :: "platform \<Rightarrow> ahtable \<Rightarrow> bool" where
  "layout_inv P T =
     (0 < T_n T \<and> length (T_slots T) = T_n T
      \<and> (\<forall>j \<in> set [0..<T_n T]. slot_inv P (T_n T) j (T_slots T ! j)))"

text \<open>The number of records in the buckets (the count of invariant 1).\<close>

definition count_records :: "platform \<Rightarrow> ahtable \<Rightarrow> nat" where
  "count_records P T = sum_list (map (\<lambda>j. length (slot_list P (T_slots T ! j))) [0..<T_n T])"


text \<open>
  The content of a table: key, value handle and value of each record, by ascending bucket
  and, inside a bucket, in the order of the buffer.
\<close>

definition table_entries :: "platform \<Rightarrow> ahtable \<Rightarrow> (byte list \<times> ptr \<times> value_t) list" where
  "table_entries P T =
     concat (map (\<lambda>j. map (\<lambda>e. (e_key e, (j, e_val_at e), e_value e))
                         (slot_list P (T_slots T ! j))) [0..<T_n T])"




text \<open>A loop body run over a list, stopping at the first fault.\<close>

fun fold_fault :: "('b \<Rightarrow> 'a \<Rightarrow> fault + 'a) \<Rightarrow> 'b list \<Rightarrow> 'a \<Rightarrow> fault + 'a" where
  "fold_fault f [] st = Inr st"
| "fold_fault f (x # xs) st =
     (case f x st of Inl e \<Rightarrow> Inl e | Inr st' \<Rightarrow> fold_fault f xs st')"

text \<open>
  What a record \<open>e\<close> of a buffer is there: a nonzero first byte, a prefix that the decoder
  reads as the length of the key, the key and the value.
\<close>

definition entry_in :: "platform \<Rightarrow> byte list \<Rightarrow> entry \<Rightarrow> bool" where
  "entry_in P buf e =
     (e_at e < length buf \<and> buf ! e_at e \<noteq> 0
      \<and> length (e_key e) \<le> e_val_at e
      \<and> keylen P buf (e_at e) = Inr (length (e_key e), e_val_at e - length (e_key e))
      \<and> rd_bytes buf (e_val_at e - length (e_key e)) (length (e_key e)) = Inr (e_key e)
      \<and> e_val_at e + sizeof_value_t < length buf
      \<and> load_value (big_endian P) (take sizeof_value_t (drop (e_val_at e) buf)) = e_value e)"

text \<open>
  The bytes of a sequence of records, and the records the decoder finds in them when
  they start at position \<open>a\<close>.
\<close>

definition enc_records :: "platform \<Rightarrow> (byte list \<times> value_t) list \<Rightarrow> byte list" where
  "enc_records P kvs = concat (map (\<lambda>(k, v). enc_record P k v) kvs)"

fun entries_at :: "platform \<Rightarrow> nat \<Rightarrow> (byte list \<times> value_t) list \<Rightarrow> entry list" where
  "entries_at P a [] = []"
| "entries_at P a ((k, v) # kvs) =
     Entry a k (a + length (len_prefix P (length k)) + length k) v
       # entries_at P (a + length (enc_record P k v)) kvs"

text \<open>The pairs of key and value of a table, in the order of \<open>table_entries\<close>.\<close>

definition table_kvs :: "platform \<Rightarrow> ahtable \<Rightarrow> (byte list \<times> value_t) list" where
  "table_kvs P T = map (\<lambda>(k, h, v). (k, v)) (table_entries P T)"

text \<open>The pairs whose key hashes to bucket \<open>h\<close> of \<open>n\<close>.\<close>

definition in_bucket ::
    "platform \<Rightarrow> nat \<Rightarrow> nat \<Rightarrow> (byte list \<times> value_t) list \<Rightarrow> (byte list \<times> value_t) list" where
  "in_bucket P n h kvs = filter (\<lambda>kv. unat (hash P (fst kv)) mod n = h) kvs"

text \<open>
  The two loop bodies of \<open>ahtable_expand\<close> once the iterator has given key and value of
  the record it is on.
\<close>

definition size_step ::
    "platform \<Rightarrow> nat \<Rightarrow> byte list \<times> value_t \<Rightarrow> nat list \<Rightarrow> fault + nat list" where
  "size_step P new_n kv slot_sizes =
     (let len = length (fst kv); h = unat (hash P (fst kv)) mod new_n in
      if h < length slot_sizes
      then Inr (slot_sizes[h := slot_sizes ! h
                  + (len + sizeof_value_t + (if len \<ge> 128 then 2 else 1))])
      else Inl OutOfBounds)"

definition place_step ::
    "platform \<Rightarrow> nat \<Rightarrow> byte list \<times> value_t
     \<Rightarrow> byte list option list \<times> ptr option list \<times> nat
     \<Rightarrow> fault + (byte list option list \<times> ptr option list \<times> nat)" where
  "place_step P new_n kv st =
     (case st of (slots, slots_next, m) \<Rightarrow>
        let h = unat (hash P (fst kv)) mod new_n in
        if h < length slots_next then
          (case slots_next ! h of
             None \<Rightarrow> Inl NullDeref
           | Some (b, a) \<Rightarrow>
               if b < length slots then
                 (case slots ! b of
                    None \<Rightarrow> Inl NullDeref
                  | Some buf \<Rightarrow>
                      (case ins_key P buf a (fst kv) of
                         Inl e \<Rightarrow> Inl e
                       | Inr (buf1, u, a') \<Rightarrow>
                           (case wr_bytes buf1 u (store_value (big_endian P) (snd kv)) of
                              Inl e \<Rightarrow> Inl e
                            | Inr buf2 \<Rightarrow>
                                Inr (slots[b := Some buf2],
                                     slots_next[h := Some (b, a')], m + 1))))
               else Inl OutOfBounds)
        else Inl OutOfBounds)"

text \<open>
  The state of the second loop of \<open>ahtable_expand\<close> after the pairs \<open>pre\<close> of all the pairs
  \<open>kvs\<close>: each buffer holds its records so far, then what \<open>malloc\<close> left, then the
  terminator; each cursor is behind the records so far.
\<close>

definition place_slots ::
    "platform \<Rightarrow> nat \<Rightarrow> (byte list \<times> value_t) list \<Rightarrow> (byte list \<times> value_t) list
     \<Rightarrow> byte list option list" where
  "place_slots P new_n kvs pre =
     map (\<lambda>h. if 0 < length (enc_records P (in_bucket P new_n h kvs))
               then Some (enc_records P (in_bucket P new_n h pre)
                          @ replicate (length (enc_records P (in_bucket P new_n h kvs))
                                        - length (enc_records P (in_bucket P new_n h pre)))
                              (junk P)
                          @ [0])
               else None) [0..<new_n]"

definition place_next ::
    "platform \<Rightarrow> nat \<Rightarrow> (byte list \<times> value_t) list \<Rightarrow> (byte list \<times> value_t) list
     \<Rightarrow> ptr option list" where
  "place_next P new_n kvs pre =
     map (\<lambda>h. if 0 < length (enc_records P (in_bucket P new_n h kvs))
               then Some (h, length (enc_records P (in_bucket P new_n h pre)))
               else None) [0..<new_n]"

text \<open>The buckets of a table of \<open>new_n\<close> buckets that holds the pairs \<open>kvs\<close>.\<close>

definition expand_slots ::
    "platform \<Rightarrow> nat \<Rightarrow> (byte list \<times> value_t) list \<Rightarrow> byte list option list" where
  "expand_slots P new_n kvs =
     map (\<lambda>h. if in_bucket P new_n h kvs = [] then None
               else Some (enc_records P (in_bucket P new_n h kvs) @ [0])) [0..<new_n]"


text \<open>The iterator on record \<open>e\<close> of bucket \<open>j\<close>, and the records from bucket \<open>j\<close> on.\<close>

definition mk_iter :: "nat \<Rightarrow> entry \<Rightarrow> ahtable_iter" where
  "mk_iter j e = \<lparr>iter_i = j, iter_s = Some (j, e_at e)\<rparr>"

definition positions_from :: "platform \<Rightarrow> ahtable \<Rightarrow> nat \<Rightarrow> (nat \<times> entry) list" where
  "positions_from P T j =
     concat (map (\<lambda>i. map (\<lambda>e. (i, e)) (slot_list P (T_slots T ! i))) [j..<T_n T])"

subsection \<open>Hosts for the concrete runs\<close>

text \<open>
  A little-endian and a big-endian host. The hash function puts a key in the bucket of
  the sum of its bytes.
\<close>

definition le_host :: platform where
  "le_host = \<lparr>hash = (\<lambda>k. ucast (sum_list k)), big_endian = False, junk = 0xAA\<rparr>"

definition be_host :: platform where
  "be_host = \<lparr>hash = (\<lambda>k. ucast (sum_list k)), big_endian = True, junk = 0xAA\<rparr>"

text \<open>
  \<open>get\<close> of a key and \<open>*h = v\<close> through the handle it returns: the insertion of a pair as
  a caller writes it.
\<close>

definition ahtable_put ::
    "platform \<Rightarrow> ahtable \<Rightarrow> byte list \<Rightarrow> value_t \<Rightarrow> fault + ahtable" where
  "ahtable_put P T key v =
     (case ahtable_get P T key of
        Inl e \<Rightarrow> Inl e
      | Inr (T', h) \<Rightarrow> assign_value P T' h v)"

text \<open>
  On the little-endian host, the table after \<open>ahtable_create\<close> and the insertion of the
  keys \<open>01\<close>, \<open>02 03\<close> and \<open>09\<close> with the values 5, 7 and 9.
\<close>

definition sample_table :: ahtable where
  "sample_table =
     \<lparr>T_flag = 0, T_c0 = 0, T_c1 = 0, T_n = 8, T_m = 3, T_max_m = 40,
      T_slots =
        [None,
         Some [1, 1, 5, 0, 0, 0, 0, 0, 0, 0, 1, 9, 9, 0, 0, 0, 0, 0, 0, 0, 0],
         None, None, None,
         Some [2, 2, 3, 7, 0, 0, 0, 0, 0, 0, 0, 0],
         None, None]\<rparr>"

section \<open>Lemmas\<close>


subsection \<open>Values and prefixes in memory\<close>

lemma load_bytes_le:
  "foldr (\<lambda>b w. ucast b OR push_bit 8 w)
         (map (\<lambda>i. (ucast (drop_bit (8 * i) v) :: byte)) [k..<k + m]) (0 :: value_t)
   = take_bit (8 * m) (drop_bit (8 * k) v)"
proof (induction m arbitrary: k)
  case 0
  show ?case by simp
next
  case (Suc m)
  have "[k..<k + Suc m] = k # [Suc k..<Suc k + m]"
    by (simp add: upt_rec)
  then show ?case
    using Suc.IH [of "Suc k"]
    apply simp
    apply (rule bit_word_eqI)
    apply (auto simp: bit_simps)
    done
qed

lemma load_store_value [simp]: "load_value be (store_value be v) = v"
proof -
  have "take_bit 64 v = v"
    by (simp add: take_bit_word_eq_self)
  then show ?thesis
    using load_bytes_le [of v 0 8]
    by (simp add: load_value_def store_value_def sizeof_value_t_def Let_def)
qed

lemma length_store_value [simp]: "length (store_value be v) = 8"
  by (simp add: store_value_def sizeof_value_t_def Let_def)

lemma length_len_prefix: "length (len_prefix P len) = (if len < 128 then 1 else 2)"
  by (simp add: len_prefix_def store_u16_def)

lemma length_enc_record:
  "length (enc_record P key v) = (if length key < 128 then 1 else 2) + length key + 8"
  by (simp add: enc_record_def length_len_prefix)

subsection \<open>Records of a buffer\<close>

lemma slot_entries_in_range: "slot_entries P buf s = Some es \<Longrightarrow> s < length buf"
  by (subst (asm) slot_entries.simps) (auto split: sum.splits simp: rd_def split: if_splits)


lemma slot_entries_unfold:
  assumes "slot_entries P buf s = Some es"
  shows "(rd buf s = Inr 0 \<and> s + 1 = length buf \<and> es = [])
       \<or> (\<exists>c k s1 bs es'. rd buf s = Inr c \<and> c \<noteq> 0 \<and> keylen P buf s = Inr (k, s1)
             \<and> rd_bytes buf s1 (k + sizeof_value_t) = Inr bs
             \<and> slot_entries P buf (s1 + (k + sizeof_value_t)) = Some es'
             \<and> es = Entry s (take k bs) (s1 + k) (load_value (big_endian P) (drop k bs)) # es')"
  using assms
  by (subst (asm) slot_entries.simps) (auto split: sum.splits option.splits if_splits)

lemma slot_entries_Cons:
  assumes "slot_entries P buf s = Some (e # es)"
  shows "e_at e = s \<and> entry_in P buf e
         \<and> slot_entries P buf (e_val_at e + sizeof_value_t) = Some es"
proof -
  from slot_entries_unfold [OF assms]
  obtain c k s1 bs where c: "rd buf s = Inr c" "c \<noteq> 0"
    and k: "keylen P buf s = Inr (k, s1)"
    and bs: "rd_bytes buf s1 (k + sizeof_value_t) = Inr bs"
    and rest: "slot_entries P buf (s1 + (k + sizeof_value_t)) = Some es"
    and e: "e = Entry s (take k bs) (s1 + k) (load_value (big_endian P) (drop k bs))"
    by auto
  from bs have len: "s1 + (k + sizeof_value_t) \<le> length buf"
    and bs_eq: "bs = take (k + sizeof_value_t) (drop s1 buf)"
    by (auto simp: rd_bytes_def split: if_splits)
  have lk: "length (take k bs) = k"
    using len bs_eq by simp
  have kb: "take k bs = take k (drop s1 buf)"
    using bs_eq by (simp add: min_def)
  have vb: "drop k bs = take sizeof_value_t (drop (s1 + k) buf)"
    using bs_eq by (simp add: drop_take add.commute)
  from slot_entries_in_range [OF rest] have "s1 + k + sizeof_value_t < length buf"
    by (simp add: add.assoc)
  with c k len lk kb vb rest e show ?thesis
    by (auto simp: entry_in_def rd_def rd_bytes_def add.assoc split: if_splits)
qed

lemma entry_in_slot_entries:
  "slot_entries P buf s = Some es \<Longrightarrow> e \<in> set es \<Longrightarrow> entry_in P buf e"
proof (induction es arbitrary: s)
  case Nil
  then show ?case by simp
next
  case (Cons a es)
  from slot_entries_Cons [OF Cons.prems(1)] Cons.IH Cons.prems(2) show ?case
    by auto
qed

lemma entry_in_key_nonempty_or: "entry_in P buf e \<Longrightarrow> e_at e < e_val_at e - length (e_key e)"
  by (auto simp: entry_in_def dest: keylen_advances)

subsection \<open>The search loop\<close>


subsection \<open>The iterator over a table\<close>

lemma slot_entries_first_byte:
  "slot_entries P buf s = Some es \<Longrightarrow> s < length buf \<and> (buf ! s = 0 \<longleftrightarrow> es = [])"
  using slot_entries_unfold [of P buf s es] by (auto simp: rd_def split: if_splits)

lemma layout_inv_slot_inv:
  "layout_inv P T \<Longrightarrow> j < T_n T \<Longrightarrow> slot_inv P (T_n T) j (T_slots T ! j)"
  by (simp add: layout_inv_def)

lemma layout_inv_length: "layout_inv P T \<Longrightarrow> length (T_slots T) = T_n T"
  by (simp add: layout_inv_def)

lemma layout_inv_entries:
  assumes "layout_inv P T" and "j < T_n T" and "T_slots T ! j = Some buf"
  shows "slot_entries P buf 0 = Some (slot_list P (T_slots T ! j))"
  using layout_inv_slot_inv [OF assms(1,2)] assms(3)
  by (auto simp: slot_inv_def slot_list_def split: option.splits)

lemma positions_from_step:
  "j < T_n T \<Longrightarrow> positions_from P T j
     = map (\<lambda>e. (j, e)) (slot_list P (T_slots T ! j)) @ positions_from P T (Suc j)"
  by (simp add: positions_from_def upt_conv_Cons)

lemma positions_from_end [simp]: "T_n T \<le> j \<Longrightarrow> positions_from P T j = []"
  by (simp add: positions_from_def)

lemma iter_next_loop_layout:
  assumes "layout_inv P T"
  shows "\<exists>j'. iter_next_loop T j = Inr j' \<and> j \<le> j'
           \<and> positions_from P T j = positions_from P T j'
           \<and> (j' < T_n T \<longrightarrow> (\<exists>buf. T_slots T ! j' = Some buf)
                 \<and> slot_list P (T_slots T ! j') \<noteq> [])"
  using assms
proof (induction T j rule: iter_next_loop.induct)
  case (1 T j)
  show ?case
  proof (cases "j < T_n T")
    case False
    then show ?thesis
      by (subst iter_next_loop.simps) simp
  next
    case True
    then have len: "j < length (T_slots T)"
      using layout_inv_length [OF "1.prems"] by simp
    show ?thesis
    proof (cases "T_slots T ! j")
      case None
      then have "positions_from P T j = positions_from P T (Suc j)"
        using True by (simp add: positions_from_step slot_list_def)
      with "1.IH"(1) [OF True len None "1.prems"] True len None show ?thesis
        by (subst iter_next_loop.simps) force
    next
      case (Some buf)
      note es = layout_inv_entries [OF "1.prems" True Some]
      note fb = slot_entries_first_byte [OF es]
      show ?thesis
      proof (cases "buf ! 0 = 0")
        case z: True
        with fb have "slot_list P (T_slots T ! j) = []" by simp
        then have "positions_from P T j = positions_from P T (Suc j)"
          using True by (simp add: positions_from_step)
        moreover have "rd buf 0 = Inr 0"
          using fb z by (simp add: rd_def)
        ultimately show ?thesis
          using "1.IH"(2) [OF True len Some _ _ "1.prems", of 0] True len Some
          by (subst iter_next_loop.simps) force
      next
        case nz: False
        with fb have "slot_list P (T_slots T ! j) \<noteq> []" by simp
        moreover have "rd buf 0 = Inr (buf ! 0)"
          using fb by (simp add: rd_def)
        ultimately show ?thesis
          using True len Some nz
          by (subst iter_next_loop.simps) simp
      qed
    qed
  qed
qed

lemma iter_begin_loop_next_loop:
  "iter_next_loop T j = Inr j' \<Longrightarrow>
   \<exists>s'. iter_begin_loop T j s = Inr \<lparr>iter_i = j', iter_s = s'\<rparr>
        \<and> (j' < T_n T \<longrightarrow> s' = Some (j', 0))"
proof (induction T j arbitrary: s rule: iter_next_loop.induct)
  case (1 T j)
  from "1.prems" show ?case
    apply (subst (asm) iter_next_loop.simps)
    apply (subst iter_begin_loop.simps)
    apply (auto split: if_splits option.splits sum.splits
                intro: "1.IH"(1) [simplified] "1.IH"(2) [simplified])
    done
qed


lemma iter_at_entry:
  assumes "b < T_n T" and "b < length (T_slots T)" and "T_slots T ! b = Some buf"
    and "entry_in P buf e"
  shows "ahtable_iter_key P T (mk_iter b e)
           = Inr (Some ((b, e_val_at e - length (e_key e)), length (e_key e)))"
    and "load_bytes T (Some (b, e_val_at e - length (e_key e))) (length (e_key e))
           = Inr (e_key e)"
    and "ahtable_iter_val P T (mk_iter b e) = Inr (Some (b, e_val_at e))"
    and "deref_value P T (Some (b, e_val_at e)) = Inr (e_value e)"
  using assms
  by (auto simp: ahtable_iter_key_def ahtable_iter_val_def load_bytes_def deref_value_def
        mk_iter_def ahtable_iter_finished_def slot_buf_def entry_in_def rd_bytes_def)

lemma iter_next_at_entry:
  assumes "layout_inv P T" and "b < T_n T" and "T_slots T ! b = Some buf"
    and "slot_entries P buf a = Some (e # es)"
  shows "\<exists>it'. ahtable_iter_next P T \<lparr>iter_i = b, iter_s = Some (b, a)\<rparr> = Inr it'
           \<and> (if es = []
               then (\<exists>j'. iter_next_loop T (Suc b) = Inr j' \<and> iter_i it' = j'
                          \<and> (j' < T_n T \<longrightarrow> iter_s it' = Some (j', 0)))
               else it' = \<lparr>iter_i = b, iter_s = Some (b, e_val_at e + sizeof_value_t)\<rparr>)"
proof -
  from slot_entries_Cons [OF assms(4)]
  have at: "e_at e = a" and ein: "entry_in P buf e"
    and rest: "slot_entries P buf (e_val_at e + sizeof_value_t) = Some es"
    by auto
  have len: "b < length (T_slots T)"
    using assms(1,2) by (simp add: layout_inv_length)
  from ein have pos: "e_val_at e - length (e_key e) + (length (e_key e) + sizeof_value_t)
        = e_val_at e + sizeof_value_t"
    by (auto simp: entry_in_def)
  note fb = slot_entries_first_byte [OF rest]
  from iter_next_loop_layout [OF assms(1), of "Suc b"]
  obtain j' where j': "iter_next_loop T (Suc b) = Inr j'" by blast
  show ?thesis
    using ein at len assms(2,3) pos fb j'
    by (auto simp: ahtable_iter_next_def ahtable_iter_finished_def slot_buf_def
          entry_in_def rd_def Let_def)
qed

lemma iter_loop_positions:
  assumes "layout_inv P T"
  shows "b < T_n T \<Longrightarrow> T_slots T ! b = Some buf \<Longrightarrow> slot_entries P buf a = Some es
     \<Longrightarrow> es \<noteq> [] \<Longrightarrow> xs = map (\<lambda>e. (b, e)) es @ positions_from P T (Suc b) \<Longrightarrow>
     ahtable_iter_loop P T body \<lparr>iter_i = b, iter_s = Some (b, a)\<rparr> st
     = fold_fault (\<lambda>(j, e). body (mk_iter j e)) xs st"
proof (induction xs arbitrary: b buf a es st)
  case Nil
  then show ?case by simp
next
  case (Cons x xs)
  from Cons.prems(4) obtain e es' where es: "es = e # es'"
    by (cases es) auto
  with Cons.prems(5) have x: "x = (b, e)"
    and xs: "xs = map (\<lambda>e. (b, e)) es' @ positions_from P T (Suc b)"
    by auto
  from slot_entries_Cons [OF Cons.prems(3) [unfolded es]]
  have at: "e_at e = a"
    and rest: "slot_entries P buf (e_val_at e + sizeof_value_t) = Some es'"
    by auto
  have it: "\<lparr>iter_i = b, iter_s = Some (b, a)\<rparr> = mk_iter b e"
    using at by (simp add: mk_iter_def)
  have nf: "\<not> ahtable_iter_finished T \<lparr>iter_i = b, iter_s = Some (b, a)\<rparr>"
    using Cons.prems(1) by (simp add: ahtable_iter_finished_def)
  from iter_next_at_entry [OF assms Cons.prems(1,2) Cons.prems(3) [unfolded es]]
  obtain it' where nx: "ahtable_iter_next P T \<lparr>iter_i = b, iter_s = Some (b, a)\<rparr> = Inr it'"
    and it': "if es' = []
               then (\<exists>j'. iter_next_loop T (Suc b) = Inr j' \<and> iter_i it' = j'
                          \<and> (j' < T_n T \<longrightarrow> iter_s it' = Some (j', 0)))
               else it' = \<lparr>iter_i = b, iter_s = Some (b, e_val_at e + sizeof_value_t)\<rparr>"
    by blast
  have "ahtable_iter_loop P T body it' st' = fold_fault (\<lambda>(j, e). body (mk_iter j e)) xs st'"
    for st'
  proof (cases "es' = []")
    case False
    with it' have "it' = \<lparr>iter_i = b, iter_s = Some (b, e_val_at e + sizeof_value_t)\<rparr>"
      by simp
    with Cons.IH [OF Cons.prems(1,2) rest False xs] show ?thesis by simp
  next
    case True
    with it' obtain j' where j': "iter_next_loop T (Suc b) = Inr j'" "iter_i it' = j'"
      "j' < T_n T \<longrightarrow> iter_s it' = Some (j', 0)"
      by auto
    from iter_next_loop_layout [OF assms, of "Suc b"] j'(1)
    have pj: "positions_from P T (Suc b) = positions_from P T j'"
      and nj: "j' < T_n T \<longrightarrow> (\<exists>buf. T_slots T ! j' = Some buf)
                 \<and> slot_list P (T_slots T ! j') \<noteq> []"
      by auto
    show ?thesis
    proof (cases "j' < T_n T")
      case False
      with j'(2) pj xs True show ?thesis
        by (subst ahtable_iter_loop.simps) (simp add: ahtable_iter_finished_def)
    next
      case lt: True
      with nj obtain buf' where buf': "T_slots T ! j' = Some buf'"
        and ne: "slot_list P (T_slots T ! j') \<noteq> []"
        by auto
      have it'_eq: "it' = \<lparr>iter_i = j', iter_s = Some (j', 0)\<rparr>"
        using j'(2,3) lt by (cases it') simp
      have "xs = map (\<lambda>e. (j', e)) (slot_list P (T_slots T ! j')) @ positions_from P T (Suc j')"
        using xs True pj lt by (simp add: positions_from_step)
      from Cons.IH [OF lt buf' layout_inv_entries [OF assms lt buf'] ne this]
      show ?thesis by (simp add: it'_eq)
    qed
  qed
  then show ?case
    using nf nx x it
    by (subst ahtable_iter_loop.simps) (simp split: sum.splits)
qed

lemma iter_begin_positions:
  assumes "layout_inv P T"
  shows "\<exists>it. ahtable_iter_begin T = Inr it
           \<and> (\<forall>body st. ahtable_iter_loop P T body it st
                  = fold_fault (\<lambda>(j, e). body (mk_iter j e)) (positions_from P T 0) st)"
proof -
  from iter_next_loop_layout [OF assms, of 0]
  obtain j' where j': "iter_next_loop T 0 = Inr j'"
    and pj: "positions_from P T 0 = positions_from P T j'"
    and nj: "j' < T_n T \<longrightarrow> (\<exists>buf. T_slots T ! j' = Some buf)
                 \<and> slot_list P (T_slots T ! j') \<noteq> []"
    by auto
  from iter_begin_loop_next_loop [OF j', of None]
  obtain s' where b: "ahtable_iter_begin T = Inr \<lparr>iter_i = j', iter_s = s'\<rparr>"
    and s': "j' < T_n T \<longrightarrow> s' = Some (j', 0)"
    by (auto simp: ahtable_iter_begin_def)
  show ?thesis
  proof (cases "j' < T_n T")
    case False
    with b pj show ?thesis
      by (subst ahtable_iter_loop.simps) (simp add: ahtable_iter_finished_def)
  next
    case True
    with nj obtain buf' where buf': "T_slots T ! j' = Some buf'"
      and ne: "slot_list P (T_slots T ! j') \<noteq> []"
      by auto
    have "positions_from P T 0
          = map (\<lambda>e. (j', e)) (slot_list P (T_slots T ! j')) @ positions_from P T (Suc j')"
      using pj True by (simp add: positions_from_step)
    note lp = iter_loop_positions [OF assms True buf' layout_inv_entries [OF assms True buf'] ne this]
    have b': "ahtable_iter_begin T = Inr \<lparr>iter_i = j', iter_s = Some (j', 0)\<rparr>"
      using b s' True by simp
    show ?thesis
      unfolding b' by (intro exI conjI allI, rule refl, rule lp)
  qed
qed

subsection \<open>A full traversal\<close>


lemma positions_from_mem:
  "(j, e) \<in> set (positions_from P T j0)
   \<longleftrightarrow> j0 \<le> j \<and> j < T_n T \<and> e \<in> set (slot_list P (T_slots T ! j))"
  by (auto simp: positions_from_def)

lemma slot_list_mem:
  assumes "layout_inv P T" and "j < T_n T" and "e \<in> set (slot_list P (T_slots T ! j))"
  shows "\<exists>buf. T_slots T ! j = Some buf \<and> entry_in P buf e
           \<and> slot_entries P buf 0 = Some (slot_list P (T_slots T ! j))"
    and "good_len P (length (e_key e))"
    and "unat (hash P (e_key e)) mod T_n T = j"
proof -
  from assms(3) obtain buf where buf: "T_slots T ! j = Some buf"
    by (cases "T_slots T ! j") (auto simp: slot_list_def)
  note es = layout_inv_entries [OF assms(1,2) buf]
  from entry_in_slot_entries [OF es assms(3)] buf es
  show "\<exists>buf. T_slots T ! j = Some buf \<and> entry_in P buf e
           \<and> slot_entries P buf 0 = Some (slot_list P (T_slots T ! j))"
    by simp
  from layout_inv_slot_inv [OF assms(1,2)] buf es assms(3)
  show "good_len P (length (e_key e))" and "unat (hash P (e_key e)) mod T_n T = j"
    by (auto simp: slot_inv_def)
qed


lemma table_entries_positions:
  "table_entries P T
   = map (\<lambda>(j, e). (e_key e, (j, e_val_at e), e_value e)) (positions_from P T 0)"
  by (simp add: table_entries_def positions_from_def map_concat comp_def)


lemma length_table_entries: "length (table_entries P T) = count_records P T"
  by (simp add: table_entries_def count_records_def length_concat comp_def)

lemma table_entries_mem:
  "(k, (j, a), v) \<in> set (table_entries P T)
   \<longleftrightarrow> j < T_n T \<and> (\<exists>e \<in> set (slot_list P (T_slots T ! j)).
          k = e_key e \<and> a = e_val_at e \<and> v = e_value e)"
  by (auto simp: table_entries_def)

lemma distinct_keys_table_entries:
  assumes "layout_inv P T"
  shows "distinct (map fst (table_entries P T))"
proof -
  have d: "distinct (map fst (concat (map (\<lambda>j. map (\<lambda>e. (e_key e, (j, e_val_at e), e_value e))
                         (slot_list P (T_slots T ! j))) js)))"
    if "distinct js" "set js \<subseteq> {0..<T_n T}" for js
    using that
  proof (induction js)
    case Nil
    show ?case by simp
  next
    case (Cons j js)
    then have j: "j < T_n T" by simp
    have dj: "distinct (map e_key (slot_list P (T_slots T ! j)))"
      using layout_inv_slot_inv [OF assms j]
      by (auto simp: slot_inv_def slot_list_def split: option.splits)
    have "e_key e \<noteq> e_key e'"
      if "e \<in> set (slot_list P (T_slots T ! j))" "j' \<in> set js"
        "e' \<in> set (slot_list P (T_slots T ! j'))" for e e' j'
    proof -
      from Cons.prems that(2) have "j' < T_n T" "j' \<noteq> j" by auto
      with slot_list_mem(3) [OF assms j that(1)] slot_list_mem(3) [OF assms _ that(3)]
      show ?thesis by auto
    qed
    with Cons dj show ?case
      by (auto simp: comp_def)
  qed
  show ?thesis
    unfolding table_entries_def by (rule d) auto
qed

subsection \<open>Lookup\<close>






subsection \<open>The sample table\<close>

lemmas run_simps = get_key_def get_key_body_def slot_entries.simps get_key_loop.simps iter_begin_loop.simps
  iter_next_loop.simps ahtable_iter_loop.simps keylen_def rd_def rd_bytes_def wr_bytes_def
  good_len_def sizeof_value_t_def load_value_def store_value_def load_u16_def store_u16_def
  LONG_KEYLEN_MASK_def slot_inv_def slot_list_def Let_def upt_rec

lemma sample_table_layout: "layout_inv le_host sample_table"
  by (simp add: layout_inv_def sample_table_def le_host_def run_simps)

lemma sample_table_count: "count_records le_host sample_table = 3"
  by (simp add: count_records_def sample_table_def le_host_def run_simps)


lemma sample_table_entries:
  "table_entries le_host sample_table
   = [([1], (1, 2), 5), ([9], (1, 12), 9), ([2, 3], (5, 3), 7)]"
  by (simp add: table_entries_def sample_table_def le_host_def run_simps)

subsection \<open>The encoder and the decoder of a length\<close>

lemma wr_bytes_append:
  "length bs = length old \<Longrightarrow>
   wr_bytes (xs @ old @ rest) (length xs) bs = Inr (xs @ bs @ rest)"
  by (simp add: wr_bytes_def)

lemma ins_key_split:
  assumes "length o1 = length (len_prefix P (length key))"
    and "length o2 = length key" and "length o3 = sizeof_value_t"
  shows "ins_key P (xs @ o1 @ o2 @ o3 @ rest) (length xs) key
         = Inr (xs @ enc_record P key 0 @ rest,
                length xs + length (len_prefix P (length key)) + length key,
                length xs + length (enc_record P key 0))"
proof -
  let ?p = "len_prefix P (length key)"
  let ?z = "store_value (big_endian P) 0"
  have w1: "(if length key < 128
             then wr_bytes (xs @ o1 @ o2 @ o3 @ rest) (length xs) [word_of_nat (length key)]
             else wr_bytes (xs @ o1 @ o2 @ o3 @ rest) (length xs)
                   (store_u16 (big_endian P) (word_of_nat (length key) OR 0x8000)))
          = Inr (xs @ ?p @ (o2 @ o3 @ rest))"
    using wr_bytes_append [OF assms(1) [symmetric], of xs "o2 @ o3 @ rest"]
    by (cases "length key < 128") (simp_all add: len_prefix_def)
  have s1: "length xs + (if length key < 128 then 1 else 2) = length (xs @ ?p)"
    by (simp add: length_len_prefix)
  have w2: "wr_bytes (xs @ ?p @ (o2 @ o3 @ rest)) (length (xs @ ?p)) key
            = Inr (xs @ ?p @ key @ (o3 @ rest))"
    using wr_bytes_append [OF assms(2) [symmetric], of "xs @ ?p" "o3 @ rest"]
    by (simp only: append_assoc)
  have lz: "length ?z = length o3"
    using assms(3) by (simp add: sizeof_value_t_def)
  have w3: "wr_bytes (xs @ ?p @ key @ (o3 @ rest)) (length (xs @ ?p) + length key) ?z
            = Inr (xs @ ?p @ key @ ?z @ rest)"
    using wr_bytes_append [OF lz, of "xs @ ?p @ key" rest]
    by (simp only: append_assoc length_append add.assoc)
  have e: "enc_record P key 0 = ?p @ key @ ?z"
    by (simp add: enc_record_def)
  show ?thesis
    unfolding ins_key_def Let_def w1
    apply (simp only: sum.case s1 w2 w3 e)
    apply (simp add: sizeof_value_t_def)
    done
qed

lemma ins_key_append:
  assumes "length old = length (enc_record P key 0)"
  shows "ins_key P (xs @ old @ rest) (length xs) key
         = Inr (xs @ enc_record P key 0 @ rest,
                length xs + length (len_prefix P (length key)) + length key,
                length xs + length (enc_record P key 0))"
proof -
  let ?p = "length (len_prefix P (length key))"
  let ?o1 = "take ?p old"
  let ?o2 = "take (length key) (drop ?p old)"
  let ?o3 = "drop (length key) (drop ?p old)"
  have "?o2 @ ?o3 = drop ?p old"
    by (rule append_take_drop_id)
  then have old: "old = ?o1 @ ?o2 @ ?o3"
    by (simp only: append_take_drop_id)
  have "length ?o1 = ?p" "length ?o2 = length key" "length ?o3 = sizeof_value_t"
    using assms by (simp_all add: enc_record_def sizeof_value_t_def)
  note sp = ins_key_split [OF this, of xs rest]
  have eq: "old @ rest = ?o1 @ ?o2 @ ?o3 @ rest"
    using old by (metis append_assoc)
  show ?thesis
    by (subst eq) (rule sp)
qed

lemma and_0x80_iff: "(0x80 :: byte) AND b \<noteq> 0 \<longleftrightarrow> bit b 7"
proof -
  have h: "(0x80 :: byte) = push_bit 7 1"
    by simp
  have "(0x80 :: byte) AND b = push_bit 7 (of_bool (bit b 7))"
  proof (rule bit_word_eqI)
    fix n :: nat
    assume "n < LENGTH(8)"
    have "7 \<le> n \<and> n - 7 = 0 \<longleftrightarrow> n = 7"
      by arith
    then show "bit ((0x80 :: byte) AND b) n
               \<longleftrightarrow> bit (push_bit 7 (of_bool (bit b 7)) :: byte) n"
      unfolding h by (auto simp: bit_simps simp del: push_bit_of_1)
  qed
  then show ?thesis
    by (cases "bit b 7") simp_all
qed

lemma bit7_nat: "bit (n :: nat) 7 \<longleftrightarrow> 128 \<le> n mod 256"
proof -
  have "n mod (128 * 2) = 128 * (n div 128 mod 2) + n mod 128"
    by (rule mod_mult2_eq)
  moreover have "n mod 128 < 128"
    by simp
  moreover have "n div 128 mod 2 = 0 \<or> n div 128 mod 2 = 1"
    by auto
  ultimately have "128 \<le> n mod 256 \<longleftrightarrow> n div 128 mod 2 = 1"
    by auto
  then show ?thesis
    by (simp add: bit_iff_odd odd_iff_mod_2_eq_one)
qed

lemma load_store_u16:
  "store_u16 be w = [b0, b1] \<Longrightarrow> load_u16 be b0 b1 = w"
  apply (auto simp: store_u16_def load_u16_def split: if_splits)
   apply (rule bit_word_eqI; auto simp: bit_simps)+
  done

lemma mask_long_keylen:
  assumes "len \<le> 32767"
  shows "unat (LONG_KEYLEN_MASK AND (word_of_nat len OR 0x8000)) = len"
proof -
  have m: "(0x7fff :: 16 word) = mask 15"
    by (simp add: mask_eq_exp_minus_1)
  have h: "(0x8000 :: 16 word) = push_bit 15 1"
    by simp
  have lt: "len < 2 ^ 15"
    using assms by simp
  have nb: "\<not> bit len n" if "15 \<le> n" for n
  proof -
    have "len < 2 ^ n"
      using lt that by (meson le_less_trans less_le_trans nat_less_le one_le_numeral power_increasing)
    then show ?thesis
      by (simp add: bit_iff_odd)
  qed
  have "LONG_KEYLEN_MASK AND (word_of_nat len OR 0x8000) = (word_of_nat len :: 16 word)"
  proof (rule bit_word_eqI)
    fix n :: nat
    assume "n < LENGTH(16)"
    then have "n < 15 \<or> n = 15"
      by auto
    with nb [of 15] nb [of n]
    show "bit (LONG_KEYLEN_MASK AND (word_of_nat len OR 0x8000) :: 16 word) n
          \<longleftrightarrow> bit (word_of_nat len :: 16 word) n"
      unfolding LONG_KEYLEN_MASK_def m h
      by (auto simp: bit_simps bit_of_nat_iff simp del: push_bit_of_1)
  qed
  then show ?thesis
    using assms by (simp add: unat_of_nat)
qed

lemma keylen_at_byte:
  assumes "\<not> bit b0 7"
  shows "keylen P (xs @ [b0] @ rest) (length xs) = Inr (unat b0, length xs + 1)"
  using assms by (simp add: keylen_def rd_def and_0x80_iff)

lemma keylen_at_u16:
  assumes "bit b0 7"
  shows "keylen P (xs @ [b0, b1] @ rest) (length xs)
         = Inr (unat (LONG_KEYLEN_MASK AND load_u16 (big_endian P) b0 b1), length xs + 2)"
proof -
  have "rd (xs @ [b0, b1] @ rest) (length xs) = Inr b0"
    by (simp add: rd_def)
  moreover have "rd (xs @ [b0, b1] @ rest) (length xs + 1) = Inr b1"
    by (simp add: rd_def nth_append)
  ultimately show ?thesis
    using assms by (simp add: keylen_def and_0x80_iff)
qed

lemma keylen_len_prefix:
  assumes "good_len P len"
  shows "keylen P (xs @ len_prefix P len @ rest) (length xs)
         = Inr (len, length xs + length (len_prefix P len))"
proof (cases "len < 128")
  case True
  have "\<not> bit (word_of_nat len :: byte) 7"
    using True by (simp add: bit_of_nat_iff bit7_nat)
  from keylen_at_byte [OF this, of P xs rest] True show ?thesis
    by (simp add: len_prefix_def unat_of_nat)
next
  case False
  define w :: "16 word" where "w = word_of_nat len OR 0x8000"
  obtain b0 b1 where st: "store_u16 (big_endian P) w = [b0, b1]"
    by (cases "big_endian P") (simp_all add: store_u16_def)
  have le: "len \<le> 32767"
    using assms(1) by (simp add: good_len_def)
  have h: "(0x8000 :: 16 word) = push_bit 15 1"
    by simp
  have b7: "bit b0 7"
  proof (cases "big_endian P")
    case True
    with st have "b0 = ucast (drop_bit 8 w)"
      by (simp add: store_u16_def)
    then show ?thesis
      unfolding w_def h by (simp add: bit_simps del: push_bit_of_1)
  next
    case be: False
    with st have "b0 = ucast w"
      by (simp add: store_u16_def)
    moreover have "bit len 7"
      using assms(1) False be by (simp add: good_len_def bit7_nat)
    ultimately show ?thesis
      unfolding w_def h by (simp add: bit_simps bit_of_nat_iff del: push_bit_of_1)
  qed
  have pre: "len_prefix P len = [b0, b1]"
    using False st by (simp only: len_prefix_def w_def if_False)
  have "unat (LONG_KEYLEN_MASK AND load_u16 (big_endian P) b0 b1) = len"
    using mask_long_keylen [OF le] by (simp only: load_store_u16 [OF st] w_def)
  with keylen_at_u16 [OF b7, of P xs b1 rest] show ?thesis
    by (simp only: pre) simp
qed

subsection \<open>The decoder on encoded records\<close>

lemma keylen_first_byte_zero:
  "rd buf s = Inr 0 \<Longrightarrow> keylen P buf s = Inr (0, s + 1)"
  by (simp add: keylen_def)

lemma enc_records_Cons:
  "enc_records P ((k, v) # kvs) = enc_record P k v @ enc_records P kvs"
  by (simp add: enc_records_def)

lemma enc_records_Nil [simp]: "enc_records P [] = []"
  by (simp add: enc_records_def)

lemma enc_records_append:
  "enc_records P (xs @ ys) = enc_records P xs @ enc_records P ys"
  by (simp add: enc_records_def)

lemma slot_entries_enc_records:
  assumes "\<forall>(k, v) \<in> set kvs. good_len P (length k)"
  shows "slot_entries P (xs @ enc_records P kvs @ [0]) (length xs)
         = Some (entries_at P (length xs) kvs)"
  using assms
proof (induction kvs arbitrary: xs)
  case Nil
  show ?case
    by (subst slot_entries.simps) (simp add: rd_def)
next
  case (Cons kv kvs)
  obtain k v where kv: "kv = (k, v)"
    by (cases kv)
  let ?p = "len_prefix P (length k)"
  let ?sv = "store_value (big_endian P) v"
  let ?buf = "xs @ enc_records P ((k, v) # kvs) @ [0]"
  have good: "good_len P (length k)"
    using Cons.prems kv by simp
  have buf: "?buf = xs @ ?p @ (k @ ?sv @ enc_records P kvs @ [0])"
    by (simp add: enc_records_Cons enc_record_def)
  have kl: "keylen P ?buf (length xs) = Inr (length k, length xs + length ?p)"
    unfolding buf by (rule keylen_len_prefix [OF good])
  have lx: "length xs < length ?buf"
    by simp
  have nz: "?buf ! length xs \<noteq> 0"
  proof
    assume "?buf ! length xs = 0"
    with lx have "rd ?buf (length xs) = Inr 0"
      by (simp only: rd_def if_True)
    from keylen_first_byte_zero [OF this, of P] kl good show False
      by (simp add: good_len_def)
  qed
  have rb: "rd_bytes ?buf (length xs + length ?p) (length k + sizeof_value_t) = Inr (k @ ?sv)"
    unfolding buf by (simp add: rd_bytes_def sizeof_value_t_def)
  have "?buf = (xs @ enc_record P k v) @ enc_records P kvs @ [0]"
    by (simp add: enc_records_Cons)
  with Cons.IH [of "xs @ enc_record P k v"] Cons.prems
  have rest: "slot_entries P ?buf (length xs + length (enc_record P k v))
              = Some (entries_at P (length xs + length (enc_record P k v)) kvs)"
    by simp
  have pos: "length xs + length ?p + (length k + sizeof_value_t)
             = length xs + length (enc_record P k v)"
    by (simp add: enc_record_def sizeof_value_t_def)
  have rdx: "rd ?buf (length xs) = Inr (?buf ! length xs)"
    using lx by (simp only: rd_def if_True)
  have "slot_entries P ?buf (length xs)
        = Some (Entry (length xs) k (length xs + length ?p + length k) v
                # entries_at P (length xs + length (enc_record P k v)) kvs)"
    by (subst slot_entries.simps) (simp add: rdx kl rb pos rest nz del: append_assoc)
  then show ?case
    by (simp add: kv)
qed

subsection \<open>The loops of the expansion over the pairs of the table\<close>

lemma fold_fault_cong:
  "(\<And>x st. x \<in> set xs \<Longrightarrow> f x st = g x st) \<Longrightarrow> fold_fault f xs st = fold_fault g xs st"
  by (induction xs arbitrary: st) (auto split: sum.splits)

lemma fold_fault_map: "fold_fault f (map g xs) st = fold_fault (\<lambda>x. f (g x)) xs st"
  by (induction xs arbitrary: st) (auto split: sum.splits)

lemma table_kvs_positions:
  "table_kvs P T = map (\<lambda>(j, e). (e_key e, e_value e)) (positions_from P T 0)"
  by (simp add: table_kvs_def table_entries_positions split_def)

lemma expand_size_body_at:
  assumes "layout_inv P T" and "j < T_n T" and "e \<in> set (slot_list P (T_slots T ! j))"
    and "0 < new_n"
  shows "expand_size_body P T new_n (mk_iter j e) sizes
         = size_step P new_n (e_key e, e_value e) sizes"
proof -
  from slot_list_mem(1) [OF assms(1-3)] obtain buf
    where buf: "T_slots T ! j = Some buf" and ein: "entry_in P buf e"
    by blast
  have len: "j < length (T_slots T)"
    using assms(1,2) by (simp add: layout_inv_length)
  show ?thesis
    using assms(4)
    by (simp add: expand_size_body_def size_step_def Let_def
          iter_at_entry [OF assms(2) len buf ein])
qed

lemma expand_place_body_at:
  assumes "layout_inv P T" and "j < T_n T" and "e \<in> set (slot_list P (T_slots T ! j))"
    and "0 < new_n"
  shows "expand_place_body P T new_n (mk_iter j e) st
         = place_step P new_n (e_key e, e_value e) st"
proof -
  from slot_list_mem(1) [OF assms(1-3)] obtain buf
    where buf: "T_slots T ! j = Some buf" and ein: "entry_in P buf e"
    by blast
  have len: "j < length (T_slots T)"
    using assms(1,2) by (simp add: layout_inv_length)
  show ?thesis
    using assms(4)
    by (simp add: expand_place_body_def place_step_def Let_def
          iter_at_entry [OF assms(2) len buf ein]
          split: prod.splits sum.splits option.splits)
qed

lemma iter_begin_ok:
  assumes "layout_inv P T"
  shows "\<exists>it. ahtable_iter_begin T = Inr it"
  using iter_begin_positions [OF assms, where ?'a = unit] by blast

lemma iter_loop_begin:
  assumes "layout_inv P T" and "ahtable_iter_begin T = Inr it"
  shows "ahtable_iter_loop P T body it st
         = fold_fault (\<lambda>(j, e). body (mk_iter j e)) (positions_from P T 0) st"
  using iter_begin_positions [OF assms(1)] assms(2) by auto

lemma iter_loop_size_step:
  assumes "layout_inv P T" and "0 < new_n" and "ahtable_iter_begin T = Inr it"
  shows "ahtable_iter_loop P T (expand_size_body P T new_n) it sizes
         = fold_fault (size_step P new_n) (table_kvs P T) sizes"
proof -
  have "fold_fault (\<lambda>(j, e). expand_size_body P T new_n (mk_iter j e))
          (positions_from P T 0) sizes
        = fold_fault (\<lambda>x. size_step P new_n (case x of (j, e) \<Rightarrow> (e_key e, e_value e)))
            (positions_from P T 0) sizes"
    by (rule fold_fault_cong)
       (auto simp: positions_from_mem expand_size_body_at [OF assms(1) _ _ assms(2)])
  then show ?thesis
    by (simp add: iter_loop_begin [OF assms(1,3)] table_kvs_positions fold_fault_map)
qed

lemma iter_loop_place_step:
  assumes "layout_inv P T" and "0 < new_n" and "ahtable_iter_begin T = Inr it"
  shows "ahtable_iter_loop P T (expand_place_body P T new_n) it st
         = fold_fault (place_step P new_n) (table_kvs P T) st"
proof -
  have "fold_fault (\<lambda>(j, e). expand_place_body P T new_n (mk_iter j e))
          (positions_from P T 0) st
        = fold_fault (\<lambda>x. place_step P new_n (case x of (j, e) \<Rightarrow> (e_key e, e_value e)))
            (positions_from P T 0) st"
    by (rule fold_fault_cong)
       (auto simp: positions_from_mem expand_place_body_at [OF assms(1) _ _ assms(2)])
  then show ?thesis
    by (simp add: iter_loop_begin [OF assms(1,3)] table_kvs_positions fold_fault_map)
qed

subsection \<open>The first loop of the expansion\<close>

lemma in_bucket_append:
  "in_bucket P n h (xs @ ys) = in_bucket P n h xs @ in_bucket P n h ys"
  by (simp add: in_bucket_def)

lemma in_bucket_snoc:
  "in_bucket P n h (xs @ [kv])
   = (if unat (hash P (fst kv)) mod n = h then in_bucket P n h xs @ [kv]
      else in_bucket P n h xs)"
  by (simp add: in_bucket_def)

lemma in_bucket_Nil [simp]: "in_bucket P n h [] = []"
  by (simp add: in_bucket_def)

lemma length_enc_record_step:
  "length (enc_record P k v)
   = length k + sizeof_value_t + (if length k \<ge> 128 then 2 else 1)"
  by (simp add: length_enc_record sizeof_value_t_def)

lemma enc_record_nonempty: "0 < length (enc_record P k v)"
  by (simp add: length_enc_record)

lemma enc_records_eq_Nil: "enc_records P kvs = [] \<longleftrightarrow> kvs = []"
proof (cases kvs)
  case Nil
  then show ?thesis by simp
next
  case (Cons kv kvs')
  obtain k v where "kv = (k, v)" by (cases kv)
  with Cons enc_record_nonempty [of P k v] show ?thesis
    by (auto simp: enc_records_Cons)
qed

lemma size_step_fold:
  assumes "0 < new_n"
  shows "fold_fault (size_step P new_n) kvs
           (map (\<lambda>h. length (enc_records P (in_bucket P new_n h pre))) [0..<new_n])
         = Inr (map (\<lambda>h. length (enc_records P (in_bucket P new_n h (pre @ kvs))))
                  [0..<new_n])"
proof (induction kvs arbitrary: pre)
  case Nil
  show ?case by simp
next
  case (Cons kv kvs)
  obtain k v where kv: "kv = (k, v)" by (cases kv)
  let ?h = "unat (hash P k) mod new_n"
  let ?F = "\<lambda>pre h. length (enc_records P (in_bucket P new_n h pre))"
  have h: "?h < new_n"
    using assms by simp
  have upd: "(map (?F pre) [0..<new_n])[?h := map (?F pre) [0..<new_n] ! ?h
                + (length k + sizeof_value_t + (if length k \<ge> 128 then 2 else 1))]
             = map (?F (pre @ [kv])) [0..<new_n]"
  proof (rule nth_equalityI)
    show "length ((map (?F pre) [0..<new_n])[?h := map (?F pre) [0..<new_n] ! ?h
                + (length k + sizeof_value_t + (if length k \<ge> 128 then 2 else 1))])
          = length (map (?F (pre @ [kv])) [0..<new_n])"
      by simp
  next
    fix i
    assume "i < length ((map (?F pre) [0..<new_n])[?h := map (?F pre) [0..<new_n] ! ?h
                + (length k + sizeof_value_t + (if length k \<ge> 128 then 2 else 1))])"
    then have i: "i < new_n" by simp
    show "(map (?F pre) [0..<new_n])[?h := map (?F pre) [0..<new_n] ! ?h
                + (length k + sizeof_value_t + (if length k \<ge> 128 then 2 else 1))] ! i
          = map (?F (pre @ [kv])) [0..<new_n] ! i"
      using i h
      by (cases "i = ?h")
         (simp_all add: kv in_bucket_snoc enc_records_append enc_records_Cons
            length_enc_record_step)
  qed
  have "size_step P new_n kv (map (?F pre) [0..<new_n])
        = Inr (map (?F (pre @ [kv])) [0..<new_n])"
    using h upd by (simp add: size_step_def Let_def kv)
  with Cons.IH [of "pre @ [kv]"] show ?case
    by simp
qed

subsection \<open>The second loop of the expansion\<close>

lemma length_enc_record_value: "length (enc_record P k v) = length (enc_record P k 0)"
  by (simp add: length_enc_record)

lemma place_write:
  assumes "length old = length (enc_record P k v)"
  shows "\<exists>u a'. ins_key P (xs @ old @ rest) (length xs) k
                 = Inr (xs @ enc_record P k 0 @ rest, u, a')
         \<and> a' = length xs + length (enc_record P k v)
         \<and> wr_bytes (xs @ enc_record P k 0 @ rest) u (store_value (big_endian P) v)
             = Inr (xs @ enc_record P k v @ rest)"
proof -
  let ?p = "len_prefix P (length k)"
  have old: "length old = length (enc_record P k 0)"
    using assms by (simp add: length_enc_record)
  have "length (store_value (big_endian P) v) = length (store_value (big_endian P) 0)"
    by simp
  from wr_bytes_append [OF this, of "xs @ ?p @ k" rest]
  have "wr_bytes (xs @ enc_record P k 0 @ rest) (length xs + length ?p + length k)
          (store_value (big_endian P) v)
        = Inr (xs @ enc_record P k v @ rest)"
    by (simp add: enc_record_def add.assoc)
  with ins_key_append [OF old, of xs rest] show ?thesis
    by (simp add: length_enc_record)
qed

lemma place_step_at:
  assumes "0 < new_n" and "kvs = pre @ kv # rest"
  shows "place_step P new_n kv
           (place_slots P new_n kvs pre, place_next P new_n kvs pre, m)
         = Inr (place_slots P new_n kvs (pre @ [kv]),
                place_next P new_n kvs (pre @ [kv]), m + 1)"
proof -
  obtain k v where kv: "kv = (k, v)" by (cases kv)
  let ?h = "unat (hash P k) mod new_n"
  let ?A = "enc_records P (in_bucket P new_n ?h pre)"
  let ?R = "enc_record P k v"
  let ?B = "enc_records P (in_bucket P new_n ?h rest)"
  let ?S = "\<lambda>h. length (enc_records P (in_bucket P new_n h kvs))"
  let ?rest = "replicate (length ?B) (junk P) @ [0]"
  have h: "?h < new_n"
    using assms(1) by simp
  have S: "?S ?h = length ?A + length ?R + length ?B"
    by (simp add: assms(2) kv in_bucket_append in_bucket_def enc_records_append
          enc_records_Cons)
  then have pos: "0 < ?S ?h"
    using enc_record_nonempty [of P k v] by simp
  have ne: "enc_records P (in_bucket P new_n ?h kvs) \<noteq> []"
    using pos by auto
  have "replicate (?S ?h - length ?A) (junk P)
        = replicate (length ?R) (junk P) @ replicate (length ?B) (junk P)"
    unfolding S by (simp add: replicate_add [symmetric] del: replicate_add)
  then have sl: "place_slots P new_n kvs pre ! ?h
            = Some (?A @ replicate (length ?R) (junk P) @ ?rest)"
    using h ne by (simp add: place_slots_def)
  have nx: "place_next P new_n kvs pre ! ?h = Some (?h, length ?A)"
    using h ne by (simp add: place_next_def)
  from place_write [of "replicate (length ?R) (junk P)" P k v ?A ?rest]
  obtain u where ins: "ins_key P (?A @ replicate (length ?R) (junk P) @ ?rest) (length ?A) k
                       = Inr (?A @ enc_record P k 0 @ ?rest, u, length ?A + length ?R)"
    and wr: "wr_bytes (?A @ enc_record P k 0 @ ?rest) u (store_value (big_endian P) v)
             = Inr (?A @ ?R @ ?rest)"
    by auto
  have step: "place_step P new_n kv
                (place_slots P new_n kvs pre, place_next P new_n kvs pre, m)
              = Inr ((place_slots P new_n kvs pre)[?h := Some (?A @ ?R @ ?rest)],
                     (place_next P new_n kvs pre)[?h := Some (?h, length ?A + length ?R)],
                     m + 1)"
    using h by (simp add: place_step_def kv Let_def sl nx ins wr)
      (simp add: place_slots_def place_next_def)
  have s': "(place_slots P new_n kvs pre)[?h := Some (?A @ ?R @ ?rest)]
            = place_slots P new_n kvs (pre @ [kv])"
  proof (rule nth_equalityI)
    show "length ((place_slots P new_n kvs pre)[?h := Some (?A @ ?R @ ?rest)])
          = length (place_slots P new_n kvs (pre @ [kv]))"
      by (simp add: place_slots_def)
  next
    fix i
    assume "i < length ((place_slots P new_n kvs pre)[?h := Some (?A @ ?R @ ?rest)])"
    then have i: "i < new_n"
      by (simp add: place_slots_def)
    show "(place_slots P new_n kvs pre)[?h := Some (?A @ ?R @ ?rest)] ! i
          = place_slots P new_n kvs (pre @ [kv]) ! i"
    proof (cases "i = ?h")
      case True
      have "?S ?h - (length ?A + length ?R) = length ?B"
        unfolding S by simp
      with True h ne show ?thesis
        by (simp add: place_slots_def kv in_bucket_snoc enc_records_append enc_records_Cons)
    next
      case False
      with i show ?thesis
        by (simp add: place_slots_def kv in_bucket_snoc)
    qed
  qed
  have n': "(place_next P new_n kvs pre)[?h := Some (?h, length ?A + length ?R)]
            = place_next P new_n kvs (pre @ [kv])"
  proof (rule nth_equalityI)
    show "length ((place_next P new_n kvs pre)[?h := Some (?h, length ?A + length ?R)])
          = length (place_next P new_n kvs (pre @ [kv]))"
      by (simp add: place_next_def)
  next
    fix i
    assume "i < length ((place_next P new_n kvs pre)[?h := Some (?h, length ?A + length ?R)])"
    then have i: "i < new_n"
      by (simp add: place_next_def)
    show "(place_next P new_n kvs pre)[?h := Some (?h, length ?A + length ?R)] ! i
          = place_next P new_n kvs (pre @ [kv]) ! i"
    proof (cases "i = ?h")
      case True
      with h ne show ?thesis
        by (simp add: place_next_def kv in_bucket_snoc enc_records_append enc_records_Cons)
    next
      case False
      with i show ?thesis
        by (simp add: place_next_def kv in_bucket_snoc)
    qed
  qed
  show ?thesis
    by (simp only: step s' n')
qed

lemma place_step_fold:
  assumes "0 < new_n"
  shows "kvs = pre @ xs \<Longrightarrow>
         fold_fault (place_step P new_n) xs
           (place_slots P new_n kvs pre, place_next P new_n kvs pre, length pre)
         = Inr (place_slots P new_n kvs kvs, place_next P new_n kvs kvs, length kvs)"
proof (induction xs arbitrary: pre)
  case Nil
  then show ?case by simp
next
  case (Cons kv xs)
  from Cons.prems have "kvs = (pre @ [kv]) @ xs"
    by simp
  from Cons.IH [OF this] place_step_at [OF assms Cons.prems, of P "length pre"]
  show ?case
    by simp
qed

subsection \<open>The table after the expansion\<close>

lemma malloc_terminated: "(malloc P (sz + 1))[sz := 0] = replicate sz (junk P) @ [0]"
proof -
  have "malloc P (sz + 1) = replicate sz (junk P) @ [junk P]"
    by (simp add: malloc_def replicate_append_same)
  moreover have "(replicate sz (junk P) @ [junk P])[length (replicate sz (junk P)) := 0]
                 = replicate sz (junk P) @ [0]"
    by (rule list_update_length)
  ultimately show ?thesis
    by simp
qed

lemma place_slots_start:
  "map (\<lambda>sz. if sz > 0 then Some ((malloc P (sz + 1))[sz := 0]) else None)
     (map (\<lambda>h. length (enc_records P (in_bucket P new_n h kvs))) [0..<new_n])
   = place_slots P new_n kvs []"
  using malloc_terminated [of P] by (simp add: place_slots_def)

lemma place_next_start:
  "map (\<lambda>j. case place_slots P new_n kvs [] ! j of None \<Rightarrow> None | Some buf \<Rightarrow> Some (j, 0))
     [0..<new_n]
   = place_next P new_n kvs []"
  by (simp add: place_slots_def place_next_def)

lemma place_slots_end: "place_slots P new_n kvs kvs = expand_slots P new_n kvs"
  by (simp add: place_slots_def expand_slots_def enc_records_eq_Nil)

lemma size_step_fold_start:
  assumes "0 < new_n"
  shows "fold_fault (size_step P new_n) kvs (replicate new_n 0)
         = Inr (map (\<lambda>h. length (enc_records P (in_bucket P new_n h kvs))) [0..<new_n])"
proof -
  have "replicate new_n 0
        = map (\<lambda>h. length (enc_records P (in_bucket P new_n h []))) [0..<new_n]"
    by (simp add: map_replicate_const)
  with size_step_fold [OF assms, of P kvs "[]"] show ?thesis
    by simp
qed

lemma ahtable_expand_eq:
  assumes "layout_inv P T"
  shows "ahtable_expand P T
         = (if length (table_kvs P T) \<noteq> T_m T then Inl AssertFailed
            else Inr (T\<lparr>T_slots := expand_slots P (2 * T_n T) (table_kvs P T),
                        T_n := 2 * T_n T, T_max_m := max_load (2 * T_n T)\<rparr>))"
proof -
  let ?n = "2 * T_n T"
  let ?kvs = "table_kvs P T"
  have n: "0 < ?n"
    using assms by (simp add: layout_inv_def)
  from iter_begin_ok [OF assms] obtain it where it: "ahtable_iter_begin T = Inr it"
    by blast
  have p1: "ahtable_iter_loop P T (expand_size_body P T ?n) it (replicate ?n 0)
            = Inr (map (\<lambda>h. length (enc_records P (in_bucket P ?n h ?kvs))) [0..<?n])"
    by (simp only: iter_loop_size_step [OF assms n it] size_step_fold_start [OF n])
  have p2: "ahtable_iter_loop P T (expand_place_body P T ?n) it
              (place_slots P ?n ?kvs [], place_next P ?n ?kvs [], 0)
            = Inr (expand_slots P ?n ?kvs, place_next P ?n ?kvs ?kvs, length ?kvs)"
    using place_step_fold [OF n, of ?kvs "[]" ?kvs P]
    by (simp add: iter_loop_place_step [OF assms n it] place_slots_end)
  show ?thesis
    unfolding ahtable_expand_def Let_def it sum.case p1 place_slots_start place_next_start p2
    by simp
qed

subsection \<open>The records after the expansion\<close>

lemma table_kvs_mem:
  "(k, v) \<in> set (table_kvs P T)
   \<longleftrightarrow> (\<exists>j < T_n T. \<exists>e \<in> set (slot_list P (T_slots T ! j)). k = e_key e \<and> v = e_value e)"
proof -
  have "table_kvs P T
        = concat (map (\<lambda>j. map (\<lambda>e. (e_key e, e_value e)) (slot_list P (T_slots T ! j)))
                    [0..<T_n T])"
    by (simp add: table_kvs_def table_entries_def map_concat comp_def)
  then show ?thesis
    by auto
qed

lemma table_kvs_good:
  assumes "layout_inv P T" and "kv \<in> set (table_kvs P T)"
  shows "good_len P (length (fst kv))"
proof -
  obtain k v where kv: "kv = (k, v)" by (cases kv)
  with assms(2) obtain j e where "j < T_n T" "e \<in> set (slot_list P (T_slots T ! j))"
    "k = e_key e"
    by (auto simp: table_kvs_mem)
  with slot_list_mem(2) [OF assms(1), of j e] kv show ?thesis
    by simp
qed

lemma map_fst_table_kvs: "map fst (table_kvs P T) = map fst (table_entries P T)"
  by (simp add: table_kvs_def split_def comp_def)

lemma length_table_kvs: "length (table_kvs P T) = count_records P T"
  by (simp add: table_kvs_def length_table_entries)

lemma entries_at_kvs: "map (\<lambda>e. (e_key e, e_value e)) (entries_at P a kvs) = kvs"
  by (induction kvs arbitrary: a) auto

lemma entries_at_keys: "map e_key (entries_at P a kvs) = map fst kvs"
  by (induction kvs arbitrary: a) auto

lemma length_entries_at [simp]: "length (entries_at P a kvs) = length kvs"
  by (induction kvs arbitrary: a) auto

lemma set_entries_at_keys: "e \<in> set (entries_at P a kvs) \<Longrightarrow> (e_key e, e_value e) \<in> set kvs"
  using entries_at_kvs [of P a kvs] by (metis (no_types, lifting) image_eqI list.set_map)

lemma in_bucket_mem:
  "kv \<in> set (in_bucket P n h kvs) \<longleftrightarrow> kv \<in> set kvs \<and> unat (hash P (fst kv)) mod n = h"
  by (simp add: in_bucket_def)

lemma slot_entries_expand_slots:
  assumes "\<forall>kv \<in> set kvs. good_len P (length (fst kv))" and "h < n"
  shows "slot_list P (expand_slots P n kvs ! h) = entries_at P 0 (in_bucket P n h kvs)"
    and "slot_inv P n h (expand_slots P n kvs ! h) \<longleftrightarrow> distinct (map fst (in_bucket P n h kvs))"
proof -
  let ?b = "in_bucket P n h kvs"
  have good: "\<forall>(k, v) \<in> set ?b. good_len P (length k)"
    using assms(1) by (fastforce simp: in_bucket_mem)
  from slot_entries_enc_records [OF good, of "[]"]
  have se: "slot_entries P (enc_records P ?b @ [0]) 0 = Some (entries_at P 0 ?b)"
    by simp
  show "slot_list P (expand_slots P n kvs ! h) = entries_at P 0 ?b"
    using assms(2) se by (simp add: expand_slots_def slot_list_def)
  have "good_len P (length (e_key e)) \<and> unat (hash P (e_key e)) mod n = h"
    if "e \<in> set (entries_at P 0 ?b)" for e
    using set_entries_at_keys [OF that] assms(1) by (auto simp: in_bucket_mem)
  then show "slot_inv P n h (expand_slots P n kvs ! h) \<longleftrightarrow> distinct (map fst ?b)"
    using assms(2) se by (auto simp: expand_slots_def slot_inv_def entries_at_keys)
qed

lemma mset_buckets:
  "mset (concat (map (\<lambda>h. filter (\<lambda>x. b x = h) xs) [0..<N]))
   = mset (filter (\<lambda>x. b x < N) xs)"
proof (induction N)
  case 0
  show ?case by simp
next
  case (Suc N)
  have "mset (filter (\<lambda>x. b x < N) xs) + mset (filter (\<lambda>x. b x = N) xs)
        = mset (filter (\<lambda>x. b x < Suc N) xs)"
    by (induction xs) (auto simp: less_Suc_eq)
  with Suc show ?case
    by simp
qed

lemma length_buckets:
  "sum_list (map (\<lambda>h. length (filter (\<lambda>x. b x = h) xs)) [0..<N])
   = length (filter (\<lambda>x. b x < N) xs)"
proof -
  have "sum_list (map (\<lambda>h. length (filter (\<lambda>x. b x = h) xs)) [0..<N])
        = length (concat (map (\<lambda>h. filter (\<lambda>x. b x = h) xs) [0..<N]))"
    by (simp add: length_concat comp_def)
  also have "\<dots> = size (mset (concat (map (\<lambda>h. filter (\<lambda>x. b x = h) xs) [0..<N])))"
    by simp
  also have "\<dots> = length (filter (\<lambda>x. b x < N) xs)"
    by (simp only: mset_buckets size_mset)
  finally show ?thesis .
qed

subsection \<open>The expanded table keeps the invariants\<close>

lemma table_kvs_concat:
  "table_kvs P T
   = concat (map (\<lambda>j. map (\<lambda>e. (e_key e, e_value e)) (slot_list P (T_slots T ! j)))
               [0..<T_n T])"
  by (simp add: table_kvs_def table_entries_def map_concat comp_def)

lemma table_entries_bucket:
  assumes "layout_inv P T" and "(k, (j, a), v) \<in> set (table_entries P T)"
  shows "j = unat (hash P k) mod T_n T"
proof -
  from assms(2) obtain e where "j < T_n T" "e \<in> set (slot_list P (T_slots T ! j))"
    "k = e_key e"
    by (auto simp: table_entries_mem)
  with slot_list_mem(3) [OF assms(1), of j e] show ?thesis
    by simp
qed

lemma expand_result:
  assumes "layout_inv P T"
  defines "T' \<equiv> T\<lparr>T_slots := expand_slots P (2 * T_n T) (table_kvs P T),
                    T_n := 2 * T_n T, T_max_m := max_load (2 * T_n T)\<rparr>"
  shows "layout_inv P T'"
    and "table_kvs P T'
         = concat (map (\<lambda>h. in_bucket P (2 * T_n T) h (table_kvs P T)) [0..<2 * T_n T])"
    and "mset (table_kvs P T') = mset (table_kvs P T)"
    and "count_records P T' = count_records P T"
proof -
  let ?n = "2 * T_n T"
  let ?kvs = "table_kvs P T"
  have n: "0 < ?n"
    using assms(1) by (simp add: layout_inv_def)
  have good: "\<forall>kv \<in> set ?kvs. good_len P (length (fst kv))"
    using table_kvs_good [OF assms(1)] by blast
  have dist: "distinct (map fst ?kvs)"
    using distinct_keys_table_entries [OF assms(1)] by (simp add: map_fst_table_kvs)
  have fields: "T_n T' = ?n" "T_slots T' = expand_slots P ?n ?kvs"
    by (simp_all add: T'_def)
  have sl: "slot_list P (T_slots T' ! h) = entries_at P 0 (in_bucket P ?n h ?kvs)"
    if "h < ?n" for h
    using slot_entries_expand_slots(1) [OF good that] by (simp add: fields)
  have "slot_inv P ?n h (expand_slots P ?n ?kvs ! h)" if "h < ?n" for h
    using slot_entries_expand_slots(2) [OF good that] dist
    by (simp add: in_bucket_def distinct_map_filter)
  then show "layout_inv P T'"
    using n by (simp add: layout_inv_def fields expand_slots_def)
  show kv': "table_kvs P T' = concat (map (\<lambda>h. in_bucket P ?n h ?kvs) [0..<?n])"
    unfolding table_kvs_concat [of P T'] fields
    by (rule arg_cong [where f = concat], rule map_cong [OF refl])
       (simp add: sl [unfolded fields] entries_at_kvs)
  have all: "filter (\<lambda>kv. unat (hash P (fst kv)) mod ?n < ?n) ?kvs = ?kvs"
    using n by simp
  from mset_buckets [of "\<lambda>kv. unat (hash P (fst kv)) mod ?n" ?kvs ?n]
  show "mset (table_kvs P T') = mset ?kvs"
    unfolding kv' in_bucket_def all .
  then have "size (mset (table_kvs P T')) = size (mset ?kvs)"
    by simp
  then show "count_records P T' = count_records P T"
    by (simp add: length_table_kvs)
qed

subsection \<open>Insertion of a key that is not in the table\<close>






subsection \<open>The resize step and the search\<close>






subsection \<open>What get does\<close>


subsection \<open>Runs on the sample table\<close>



section \<open>The claims\<close>

subsection \<open>Creation\<close>



subsection \<open>Slot codec\<close>

text \<open>
  C7, at the length 256 on a little-endian host. \<open>ins_key\<close> stores \<open>256 | 0x8000\<close> as the
  bytes \<open>0x00 0x81\<close>: byte 0 is the low byte of the length and its high bit is clear. The
  decoder tests \<open>0x80 & *s\<close> on that byte and reads a one-byte prefix of length 0.
\<close>

theorem ins_key_keylen_256_le:
  "map_sum id (\<lambda>(buf, val, s). (take 2 buf, keylen le_host buf 0))
     (ins_key le_host (malloc le_host 267) 0 (replicate 256 0x78))
   = Inr ([0x00, 0x81], Inr (0, 1))"
  by code_simp

subsection \<open>Clear\<close>

text \<open>
  C2. \<open>ahtable_clear\<close> frees the buckets and resets \<open>n\<close> to 8, and leaves \<open>m\<close> and \<open>max_m\<close>
  as they were: after \<open>get\<close> of one key and \<open>clear\<close>, \<open>ahtable_size\<close> is still 1.
\<close>

theorem ahtable_clear_keeps_size:
  "ahtable_size (ahtable_clear T) = ahtable_size T
   \<and> T_max_m (ahtable_clear T) = T_max_m T
   \<and> (case ahtable_get le_host ahtable_create [0x61] of
         Inl e \<Rightarrow> False
       | Inr (T1, h) \<Rightarrow> ahtable_size (ahtable_clear T1) = 1)"
proof -
  have "case ahtable_get le_host ahtable_create [0x61] of
          Inl e \<Rightarrow> False
        | Inr (T1, h) \<Rightarrow> ahtable_size (ahtable_clear T1) = 1"
    by code_simp
  then show ?thesis
    by (simp add: ahtable_size_def ahtable_clear_def)
qed

subsection \<open>Lookup without insertion\<close>



subsection \<open>Traversal\<close>



subsection \<open>Expansion\<close>

text \<open>
  C4. On a table whose buckets satisfy the layout invariants and whose \<open>m\<close> is the number
  of its records, \<open>ahtable_expand\<close> returns a table of \<open>2 * n\<close> buckets, with \<open>n\<close> set to
  \<open>2 * n\<close>, \<open>max_m\<close> to \<open>\<lfloor>5.0 * n\<rfloor>\<close> for the new \<open>n\<close>, and \<open>m\<close>, \<open>flag\<close>, \<open>c0\<close>, \<open>c1\<close> as they
  were. The pairs of key and value are the same multiset, every record lies in the bucket
  \<open>hash(key) mod 2 * n\<close>, and the invariants hold again.
\<close>

theorem ahtable_expand_correct:
  assumes "layout_inv P T" and "T_m T = count_records P T"
  shows "\<exists>T'. ahtable_expand P T = Inr T'
           \<and> T_n T' = 2 * T_n T
           \<and> length (T_slots T') = 2 * T_n T
           \<and> T_max_m T' = nat \<lfloor>5.0 * real (T_n T')\<rfloor>
           \<and> T_m T' = T_m T
           \<and> mset (table_kvs P T') = mset (table_kvs P T)
           \<and> (\<forall>(k, (j, a), v) \<in> set (table_entries P T').
                 j = unat (hash P k) mod (2 * T_n T))
           \<and> layout_inv P T'
           \<and> T_m T' = count_records P T'
           \<and> T_flag T' = T_flag T \<and> T_c0 T' = T_c0 T \<and> T_c1 T' = T_c1 T"
proof -
  define T' where "T' = T\<lparr>T_slots := expand_slots P (2 * T_n T) (table_kvs P T),
                           T_n := 2 * T_n T, T_max_m := max_load (2 * T_n T)\<rparr>"
  note res = expand_result [OF assms(1), folded T'_def]
  have ex: "ahtable_expand P T = Inr T'"
    using assms(2) by (simp add: ahtable_expand_eq [OF assms(1)] length_table_kvs T'_def)
  have n': "T_n T' = 2 * T_n T"
    by (simp add: T'_def)
  have place: "\<forall>(k, (j, a), v) \<in> set (table_entries P T'). j = unat (hash P k) mod (2 * T_n T)"
    using table_entries_bucket [OF res(1)] by (auto simp: n')
  have len: "length (T_slots T') = 2 * T_n T"
    using res(1) by (simp add: layout_inv_def n')
  have mx: "T_max_m T' = nat \<lfloor>5.0 * real (T_n T')\<rfloor>"
    by (simp add: T'_def max_load_def ahtable_max_load_factor_def)
  have "T_m T' = T_m T" "T_flag T' = T_flag T" "T_c0 T' = T_c0 T" "T_c1 T' = T_c1 T"
    by (simp_all add: T'_def)
  with ex n' len mx res place assms(2) show ?thesis
    by (intro exI [of _ T']) simp
qed

theorem ahtable_expand_correct_witness:
  "layout_inv le_host sample_table
   \<and> T_m sample_table = count_records le_host sample_table
   \<and> (\<exists>T'. ahtable_expand le_host sample_table = Inr T'
          \<and> T_n T' = 16 \<and> T_max_m T' = 80 \<and> T_m T' = 3
          \<and> mset (table_kvs le_host T') = {#([1], 5), ([9], 9), ([2, 3], 7)#})"
proof -
  have cnt: "T_m sample_table = count_records le_host sample_table"
    by (simp add: sample_table_count) (simp add: sample_table_def)
  have kvs: "table_kvs le_host sample_table = [([1], 5), ([9], 9), ([2, 3], 7)]"
    by (simp add: table_kvs_def sample_table_entries)
  from ahtable_expand_correct [OF sample_table_layout cnt]
  obtain T' where "ahtable_expand le_host sample_table = Inr T'"
    and "T_n T' = 2 * T_n sample_table"
    and "T_max_m T' = nat \<lfloor>5.0 * real (T_n T')\<rfloor>"
    and "T_m T' = T_m sample_table"
    and "mset (table_kvs le_host T') = mset (table_kvs le_host sample_table)"
    by blast
  then have "ahtable_expand le_host sample_table = Inr T'
          \<and> T_n T' = 16 \<and> T_max_m T' = 80 \<and> T_m T' = 3
          \<and> mset (table_kvs le_host T') = {#([1], 5), ([9], 9), ([2, 3], 7)#}"
    by (simp add: kvs) (simp add: sample_table_def)
  with sample_table_layout cnt show ?thesis
    by blast
qed

subsection \<open>Lookup with insertion\<close>



subsection \<open>The load bound\<close>



end
